theory Spec2Isabelle
  imports Complex_Main "HOL-Library.Char_ord" "HOL-Library.List_Lexorder" "HOL-Library.Sublist"
begin

section \<open>Python values used by the knowledge-graph core\<close>

text \<open>
  Strings are lists of code points below 256, compared lexicographically by code point as
  Python compares \<open>str\<close>. Python floats are idealised as real numbers: every score is a
  rational computed by the same arithmetic expression as in the source, without binary
  rounding error.
\<close>

subsection \<open>Strings\<close>

definition lower_char :: "char \<Rightarrow> char" where
  \<comment> \<open>\<open>str.lower\<close> on one code point below 256: A-Z and the Latin-1 capitals move by 32.\<close>
  "lower_char c =
     (let n = (of_char c :: nat)
      in if (65 \<le> n \<and> n \<le> 90) \<or> (192 \<le> n \<and> n \<le> 222 \<and> n \<noteq> 215)
         then char_of (n + 32) else c)"

definition lower :: "string \<Rightarrow> string" where
  "lower s = map lower_char s"

definition is_space :: "char \<Rightarrow> bool" where
  \<comment> \<open>the code points below 256 for which \<open>str.isspace\<close> holds\<close>
  "is_space c =
     (let n = (of_char c :: nat)
      in (9 \<le> n \<and> n \<le> 13) \<or> (28 \<le> n \<and> n \<le> 32) \<or> n = 133 \<or> n = 160)"

fun split_from :: "string \<Rightarrow> string \<Rightarrow> string list" where
  \<comment> \<open>\<open>str.split()\<close> with no argument: runs of whitespace separate, no empty pieces;
      the first argument is the piece read so far\<close>
  "split_from cur [] = (if cur = [] then [] else [cur])"
| "split_from cur (c # cs) =
     (if is_space c then (if cur = [] then split_from [] cs else cur # split_from [] cs)
      else split_from (cur @ [c]) cs)"

definition split :: "string \<Rightarrow> string list" where
  "split s = split_from [] s"

fun str_in :: "string \<Rightarrow> string \<Rightarrow> bool" where
  \<comment> \<open>\<open>term in text\<close> on strings: \<open>term\<close> occurs as a contiguous piece of \<open>text\<close>\<close>
  "str_in t [] = (t = [])"
| "str_in t (c # cs) = (prefix t (c # cs) \<or> str_in t cs)"

definition digit_char :: "nat \<Rightarrow> char" where
  "digit_char d = char_of (48 + d)"

fun str_of_nat :: "nat \<Rightarrow> string" where
  \<comment> \<open>the decimal text an f-string gives for a non-negative \<open>int\<close>\<close>
  "str_of_nat n = (if n < 10 then [digit_char n] else str_of_nat (n div 10) @ [digit_char (n mod 10)])"

declare str_of_nat.simps [simp del]

subsection \<open>Dictionaries in insertion order\<close>

text \<open>
  A Python \<open>dict\<close> iterates in insertion order; assigning to a key that is present keeps
  the key's position. A dictionary is an association list with distinct keys.
\<close>

fun dict_set :: "('k \<times> 'v) list \<Rightarrow> 'k \<Rightarrow> 'v \<Rightarrow> ('k \<times> 'v) list" where
  "dict_set [] k v = [(k, v)]"
| "dict_set ((k', v') # kvs) k v =
     (if k' = k then (k, v) # kvs else (k', v') # dict_set kvs k v)"

definition dict_get :: "('k \<times> 'v) list \<Rightarrow> 'k \<Rightarrow> 'v option" where
  "dict_get d k = map_of d k"

definition dict_has :: "('k \<times> 'v) list \<Rightarrow> 'k \<Rightarrow> bool" where
  "dict_has d k = (k \<in> set (map fst d))"

definition dict_values :: "('k \<times> 'v) list \<Rightarrow> 'v list" where
  "dict_values d = map snd d"

subsection \<open>Rounding\<close>

definition py_round :: "real \<Rightarrow> nat \<Rightarrow> real" where
  \<comment> \<open>\<open>round(x, ndigits)\<close>: to the nearest multiple of \<open>10^-ndigits\<close>, a tie to the even one\<close>
  "py_round x ndigits =
     (let y = x * 10 ^ ndigits;
          f = \<lfloor>y\<rfloor>;
          d = y - of_int f;
          n = (if d < 1 / 2 then f else if 1 / 2 < d then f + 1
               else if even f then f else f + 1)
      in of_int n / 10 ^ ndigits)"

definition py_slice_to :: "'a list \<Rightarrow> int \<Rightarrow> 'a list" where
  \<comment> \<open>\<open>xs[:n]\<close>: a negative \<open>n\<close> counts from the end\<close>
  "py_slice_to xs n =
     (if 0 \<le> n then take (nat n) xs else take (length xs - nat (- n)) xs)"

definition py_index :: "'a list \<Rightarrow> int \<Rightarrow> 'a option" where
  \<comment> \<open>\<open>xs[i]\<close>: a negative \<open>i\<close> counts from the end; \<open>None\<close> stands for IndexError\<close>
  "py_index xs i =
     (let n = int (length xs); j = (if i < 0 then n + i else i)
      in if 0 \<le> j \<and> j < n then Some (xs ! nat j) else None)"

section \<open>Graph store\<close>

text \<open>
  The graph is a networkx \<open>MultiDiGraph\<close>. Its nodes are a dictionary from node id to an
  attribute dictionary; an edge has a source, a target, an integer key that tells parallel
  edges apart, and attributes. The attribute dictionary of a node is a record with one
  field per key that a builder pass or the retrieval reads, the value for an absent key
  being \<open>None\<close> (or the empty list where every reader defaults to it). \<open>add_node\<close> on a node
  that exists updates the keys given and keeps the others, which is record update.
  Attributes that nothing in the core reads (\<open>title\<close>, \<open>content\<close>, \<open>tables\<close>, \<open>figures\<close>,
  \<open>source_file\<close>, \<open>depth\<close>, \<open>created_at\<close>) are left out.
\<close>

datatype node_kind = Standard | Clause | Requirement | ExternalStandard

datatype edge_kind =
  CONTAINS_CLAUSE | CONTAINS_REQUIREMENT | PARENT_OF | SIBLING_OF | REFERENCES | CITES_STANDARD

datatype link_method = structural | reference

record references_t =
  internal_resolved :: "string list"
  standards :: "string list"

record node_data =
  node_type :: "node_kind option"
  document_id :: "string option"
  chunk_id :: "string option"
  clause_id :: "string option"
  parent_id :: "string option"
  children_ids :: "string list"
  references :: references_t
  requirement_id :: "string option"
  parent_clause :: "string option"
  requirement_type :: "string option"
  keyword :: "string option"
  node_text :: "string option"
  standard_name :: "string option"

definition no_attrs :: node_data where
  "no_attrs =
     \<lparr>node_type = None, document_id = None, chunk_id = None, clause_id = None,
      parent_id = None, children_ids = [],
      references = \<lparr>internal_resolved = [], standards = []\<rparr>,
      requirement_id = None, parent_clause = None, requirement_type = None,
      keyword = None, node_text = None, standard_name = None\<rparr>"

record edge =
  src :: string
  dst :: string
  key :: nat
  edge_type :: edge_kind
  linking_method :: link_method
  confidence :: real

record nxgraph =
  nodes :: "(string \<times> node_data) list"
  edges :: "edge list"
  meta_processed_files :: "string set"

definition empty_graph :: nxgraph where
  "empty_graph = \<lparr>nodes = [], edges = [], meta_processed_files = {}\<rparr>"

definition has_node :: "nxgraph \<Rightarrow> string \<Rightarrow> bool" where
  "has_node g n = dict_has (nodes g) n"

definition add_node :: "string \<Rightarrow> (node_data \<Rightarrow> node_data) \<Rightarrow> nxgraph \<Rightarrow> nxgraph" where
  \<comment> \<open>\<open>graph.add_node(n, **attrs)\<close>; the function argument sets the keys of \<open>attrs\<close>\<close>
  "add_node n attrs g =
     (case dict_get (nodes g) n of
        None \<Rightarrow> g\<lparr>nodes := nodes g @ [(n, attrs no_attrs)]\<rparr>
      | Some d \<Rightarrow> g\<lparr>nodes := dict_set (nodes g) n (attrs d)\<rparr>)"

definition edges_between :: "nxgraph \<Rightarrow> string \<Rightarrow> string \<Rightarrow> edge list" where
  "edges_between g u v = filter (\<lambda>e. src e = u \<and> dst e = v) (edges g)"

definition has_edge :: "nxgraph \<Rightarrow> string \<Rightarrow> string \<Rightarrow> bool" where
  \<comment> \<open>\<open>graph.has_edge(u, v)\<close>: an edge of any key and any type from \<open>u\<close> to \<open>v\<close>\<close>
  "has_edge g u v = (edges_between g u v \<noteq> [])"

definition has_edge_key :: "nxgraph \<Rightarrow> string \<Rightarrow> string \<Rightarrow> nat \<Rightarrow> bool" where
  \<comment> \<open>\<open>graph.has_edge(u, v, key=k)\<close>\<close>
  "has_edge_key g u v k = (k \<in> set (map key (edges_between g u v)))"

function free_key :: "nat list \<Rightarrow> nat \<Rightarrow> nat" where
  \<comment> \<open>the loop of networkx's \<open>new_edge_key\<close>: \<open>while key in keydict: key += 1\<close>\<close>
  "free_key ks k = (if k \<in> set ks then free_key ks (Suc k) else k)"
  by pat_completeness auto
termination
proof (relation "measure (\<lambda>(ks, k). Suc (Max (set ks)) - k)")
  show "wf (measure (\<lambda>(ks, k). Suc (Max (set ks)) - k))" by simp
next
  fix ks :: "nat list" and k :: nat
  assume "k \<in> set ks"
  then have "k \<le> Max (set ks)" by simp
  then show "((ks, Suc k), (ks, k)) \<in> measure (\<lambda>(ks, k). Suc (Max (set ks)) - k)"
    by simp
qed

declare free_key.simps [simp del]

definition new_edge_key :: "nxgraph \<Rightarrow> string \<Rightarrow> string \<Rightarrow> nat" where
  "new_edge_key g u v =
     (let ks = map key (edges_between g u v) in free_key ks (length ks))"

definition add_edge ::
  "string \<Rightarrow> string \<Rightarrow> edge_kind \<Rightarrow> link_method \<Rightarrow> real \<Rightarrow> nxgraph \<Rightarrow> nxgraph" where
  \<comment> \<open>\<open>graph.add_edge(u, v, edge_type=..., linking_method=..., confidence=...)\<close>: never
      refuses; it creates endpoints that are missing and takes the next free key\<close>
  "add_edge u v ty m c g =
     (let g1 = (if has_node g u then g else g\<lparr>nodes := nodes g @ [(u, no_attrs)]\<rparr>);
          g2 = (if has_node g1 v then g1 else g1\<lparr>nodes := nodes g1 @ [(v, no_attrs)]\<rparr>)
      in g2\<lparr>edges := edges g2 @
              [\<lparr>src = u, dst = v, key = new_edge_key g u v, edge_type = ty,
                linking_method = m, confidence = c\<rparr>]\<rparr>)"

definition number_of_nodes :: "nxgraph \<Rightarrow> nat" where
  "number_of_nodes g = length (nodes g)"

definition number_of_edges :: "nxgraph \<Rightarrow> nat" where
  "number_of_edges g = length (edges g)"


section \<open>Graph builder\<close>

text \<open>
  A source document is the JSON object of one clause, read with the defaults the builder
  gives to missing keys: \<open>chunk_id\<close>, \<open>document_id\<close> and \<open>clause_id\<close> default to the
  empty string, \<open>parent_id\<close> to \<open>None\<close>, the lists to the empty list. The fields of a
  requirement entry keep their absence, since each has a default of its own.
\<close>

record requirement_entry =
  rq_type :: "string option"
  rq_keyword :: "string option"
  rq_text :: "string option"

record document =
  doc_chunk_id :: string
  doc_document_id :: string
  doc_clause_id :: string
  doc_parent_id :: "string option"
  doc_children_ids :: "string list"
  doc_references :: references_t
  doc_requirements :: "requirement_entry list"

record builder =
  graph :: nxgraph
  node_count :: nat
  edge_count :: nat
  processed_files :: "string set"

definition new_builder :: "nxgraph option \<Rightarrow> builder" where
  \<comment> \<open>\<open>KnowledgeGraphBuilder(existing_graph)\<close>\<close>
  "new_builder existing_graph =
     (let g = (case existing_graph of None \<Rightarrow> empty_graph | Some g \<Rightarrow> g)
      in \<lparr>graph = g, node_count = number_of_nodes g, edge_count = number_of_edges g,
          processed_files = meta_processed_files g\<rparr>)"

definition counted_add_node :: "string \<Rightarrow> (node_data \<Rightarrow> node_data) \<Rightarrow> builder \<Rightarrow> builder" where
  \<comment> \<open>\<open>self.graph.add_node(...); self.node_count += 1\<close>\<close>
  "counted_add_node n attrs b =
     b\<lparr>graph := add_node n attrs (graph b), node_count := node_count b + 1\<rparr>"

definition counted_add_edge ::
  "string \<Rightarrow> string \<Rightarrow> edge_kind \<Rightarrow> link_method \<Rightarrow> builder \<Rightarrow> builder" where
  \<comment> \<open>\<open>self.graph.add_edge(..., confidence=1.0, ...); self.edge_count += 1\<close>\<close>
  "counted_add_edge u v ty m b =
     b\<lparr>graph := add_edge u v ty m 1 (graph b), edge_count := edge_count b + 1\<rparr>"

definition default_str :: "string \<Rightarrow> string option \<Rightarrow> string" where
  \<comment> \<open>\<open>d.get(key, default)\<close> on an optional string\<close>
  "default_str dflt v = (case v of None \<Rightarrow> dflt | Some s \<Rightarrow> s)"

fun create_requirements ::
  "string \<Rightarrow> nat \<Rightarrow> requirement_entry list \<Rightarrow> builder \<Rightarrow> builder" where
  \<comment> \<open>\<open>for idx, req in enumerate(requirements)\<close>, from index \<open>idx\<close> on\<close>
  "create_requirements chunk idx [] b = b"
| "create_requirements chunk idx (req # reqs) b =
     (let req_id = chunk @ ''::req_'' @ str_of_nat idx;
          b1 = counted_add_node req_id
                 (\<lambda>d. d\<lparr>node_type := Some Requirement,
                         requirement_id := Some req_id,
                         parent_clause := Some chunk,
                         requirement_type := Some (default_str ''unknown'' (rq_type req)),
                         keyword := Some (default_str [] (rq_keyword req)),
                         node_text := Some (default_str [] (rq_text req))\<rparr>) b;
          b2 = counted_add_edge chunk req_id CONTAINS_REQUIREMENT structural b1
      in create_requirements chunk (Suc idx) reqs b2)"

definition create_document_nodes :: "string list \<Rightarrow> document \<Rightarrow> builder \<Rightarrow> string list \<times> builder" where
  \<comment> \<open>the body of the loop of \<open>_create_nodes\<close> for a document that has both ids; the first
      argument is the keys of the local dictionary \<open>standards\<close>\<close>
  "create_document_nodes stds doc b =
     (let chunk = doc_chunk_id doc;
          document = doc_document_id doc;
          (stds1, b1) =
            (if document \<notin> set stds
             then (stds @ [document],
                   counted_add_node document
                     (\<lambda>d. d\<lparr>node_type := Some Standard, document_id := Some document\<rparr>) b)
             else (stds, b));
          b2 = counted_add_node chunk
                 (\<lambda>d. d\<lparr>node_type := Some Clause,
                         chunk_id := Some chunk,
                         document_id := Some document,
                         clause_id := Some (doc_clause_id doc),
                         parent_id := doc_parent_id doc,
                         children_ids := doc_children_ids doc,
                         references := doc_references doc\<rparr>) b1;
          b3 = (if \<not> has_edge (graph b2) document chunk
                then counted_add_edge document chunk CONTAINS_CLAUSE structural b2
                else b2)
      in (stds1, create_requirements chunk 0 (doc_requirements doc) b3))"

fun create_nodes_from :: "string list \<Rightarrow> document list \<Rightarrow> builder \<Rightarrow> builder" where
  "create_nodes_from stds [] b = b"
| "create_nodes_from stds (doc # docs) b =
     (if doc_chunk_id doc = [] \<or> doc_document_id doc = []
      then create_nodes_from stds docs b
      else (case create_document_nodes stds doc b of
              (stds1, b1) \<Rightarrow> create_nodes_from stds1 docs b1))"

definition create_nodes :: "document list \<Rightarrow> builder \<Rightarrow> builder" where
  \<comment> \<open>\<open>_create_nodes\<close>\<close>
  "create_nodes documents b = create_nodes_from [] documents b"

fun clause_lookup_from ::
  "(string \<times> node_data) list \<Rightarrow> (string \<rightharpoonup> string) \<Rightarrow> (string \<rightharpoonup> string)" where
  "clause_lookup_from [] m = m"
| "clause_lookup_from ((node_id, data) # rest) m =
     clause_lookup_from rest
       (if node_type data = Some Clause
        then (case clause_id data of
                None \<Rightarrow> m
              | Some c \<Rightarrow> if c \<noteq> [] then m(c \<mapsto> node_id) else m)
        else m)"

definition clause_lookup :: "nxgraph \<Rightarrow> (string \<rightharpoonup> string)" where
  \<comment> \<open>the dictionary from \<open>clause_id\<close> to node id over all Clause nodes; a later node wins\<close>
  "clause_lookup g = clause_lookup_from (nodes g) Map.empty"

fun link_siblings ::
  "(string \<rightharpoonup> string) \<Rightarrow> string \<Rightarrow> string option \<Rightarrow> string list \<Rightarrow> builder \<Rightarrow> builder" where
  \<comment> \<open>\<open>for sibling_id in children\<close>\<close>
  "link_siblings lookup node cid [] b = b"
| "link_siblings lookup node cid (sibling # rest) b =
     link_siblings lookup node cid rest
       (if Some sibling \<noteq> cid
        then (case lookup sibling of
                None \<Rightarrow> b
              | Some sibling_node \<Rightarrow>
                  if \<not> has_edge_key (graph b) node sibling_node 0
                  then counted_add_edge node sibling_node SIBLING_OF structural b
                  else b)
        else b)"

definition structural_links_of ::
  "(string \<rightharpoonup> string) \<Rightarrow> string \<times> node_data \<Rightarrow> builder \<Rightarrow> builder" where
  \<comment> \<open>the body of the second loop of \<open>_create_structural_links\<close>. A parent id that is
      \<open>None\<close> or empty is falsy. \<open>self.graph.nodes[parent_node_id]\<close> cannot fail, the
      lookup holding node ids only; the \<open>None\<close> branch stands for that KeyError.\<close>
  "structural_links_of lookup nd b =
     (let node = fst nd; data = snd nd
      in if node_type data \<noteq> Some Clause then b
         else (case parent_id data of
                 None \<Rightarrow> b
               | Some p \<Rightarrow>
                   if p = [] then b
                   else (case lookup p of
                           None \<Rightarrow> b
                         | Some parent_node \<Rightarrow>
                             (let b1 = (if \<not> has_edge (graph b) parent_node node
                                        then counted_add_edge parent_node node PARENT_OF structural b
                                        else b)
                              in (case dict_get (nodes (graph b1)) parent_node of
                                    None \<Rightarrow> b1
                                  | Some parent_data \<Rightarrow>
                                      (let children = children_ids parent_data;
                                           cid = clause_id data
                                       in if (case cid of None \<Rightarrow> False | Some c \<Rightarrow> c \<in> set children)
                                          then link_siblings lookup node cid children b1
                                          else b1))))))"

fun structural_loop ::
  "(string \<rightharpoonup> string) \<Rightarrow> (string \<times> node_data) list \<Rightarrow> builder \<Rightarrow> builder" where
  "structural_loop lookup [] b = b"
| "structural_loop lookup (nd # rest) b =
     structural_loop lookup rest (structural_links_of lookup nd b)"

definition create_structural_links :: "builder \<Rightarrow> builder" where
  \<comment> \<open>\<open>_create_structural_links\<close>: the passes add edges between nodes that exist, so the
      node dictionary iterated over does not change\<close>
  "create_structural_links b =
     structural_loop (clause_lookup (graph b)) (nodes (graph b)) b"

fun link_internal_refs ::
  "(string \<rightharpoonup> string) \<Rightarrow> string \<Rightarrow> string list \<Rightarrow> builder \<Rightarrow> builder" where
  \<comment> \<open>\<open>for ref_clause_id in internal_refs\<close>\<close>
  "link_internal_refs lookup node [] b = b"
| "link_internal_refs lookup node (r # rest) b =
     link_internal_refs lookup node rest
       (case lookup r of
          None \<Rightarrow> b
        | Some ref_node \<Rightarrow>
            if \<not> has_edge (graph b) node ref_node
            then counted_add_edge node ref_node REFERENCES reference b
            else b)"

fun link_standard_refs :: "string \<Rightarrow> string list \<Rightarrow> builder \<Rightarrow> builder" where
  \<comment> \<open>\<open>for std_ref in std_refs\<close>\<close>
  "link_standard_refs node [] b = b"
| "link_standard_refs node (std_ref # rest) b =
     (let std_node = ''EXT::'' @ std_ref;
          b1 = (if \<not> has_node (graph b) std_node
                then counted_add_node std_node
                       (\<lambda>d. d\<lparr>node_type := Some ExternalStandard,
                               standard_name := Some std_ref\<rparr>) b
                else b);
          b2 = (if \<not> has_edge (graph b1) node std_node
                then counted_add_edge node std_node CITES_STANDARD reference b1
                else b1)
      in link_standard_refs node rest b2)"

definition reference_links_of ::
  "(string \<rightharpoonup> string) \<Rightarrow> string \<times> node_data \<Rightarrow> builder \<Rightarrow> builder" where
  \<comment> \<open>the body of the loop of \<open>_create_reference_links\<close>\<close>
  "reference_links_of lookup nd b =
     (let node = fst nd; data = snd nd
      in if node_type data \<noteq> Some Clause then b
         else link_standard_refs node (standards (references data))
                (link_internal_refs lookup node (internal_resolved (references data)) b))"

fun reference_loop ::
  "(string \<rightharpoonup> string) \<Rightarrow> (string \<times> node_data) list \<Rightarrow> builder \<Rightarrow> builder" where
  "reference_loop lookup [] b = b"
| "reference_loop lookup (nd # rest) b =
     reference_loop lookup rest (reference_links_of lookup nd b)"

definition create_reference_links :: "builder \<Rightarrow> builder" where
  \<comment> \<open>\<open>_create_reference_links\<close>: the loop runs over \<open>nodes_list\<close>, the nodes as they were
      when the pass began\<close>
  "create_reference_links b =
     reference_loop (clause_lookup (graph b)) (nodes (graph b)) b"

record statistics =
  stat_nodes :: nat
  stat_edges :: nat
  stat_standards :: nat
  stat_clauses :: nat
  stat_requirements :: nat
  stat_external_standards :: nat

definition count_kind :: "nxgraph \<Rightarrow> node_kind \<Rightarrow> nat" where
  "count_kind g k = length (filter (\<lambda>nd. node_type (snd nd) = Some k) (nodes g))"

definition compute_statistics :: "builder \<Rightarrow> statistics" where
  \<comment> \<open>\<open>_compute_statistics\<close>\<close>
  "compute_statistics b =
     \<lparr>stat_nodes = number_of_nodes (graph b),
      stat_edges = number_of_edges (graph b),
      stat_standards = count_kind (graph b) Standard,
      stat_clauses = count_kind (graph b) Clause,
      stat_requirements = count_kind (graph b) Requirement,
      stat_external_standards = count_kind (graph b) ExternalStandard\<rparr>"

type_synonym checksum = "nat \<times> nat \<times> string list"

definition compute_checksum :: "builder \<Rightarrow> checksum" where
  \<comment> \<open>\<open>_compute_checksum\<close>. The value is \<open>graph_repr\<close>, the dictionary that is serialised
      with sorted keys and hashed: the number of nodes, the number of edges and the first ten
      node ids in sorted order. The SHA-256 digest is a function of this value alone.\<close>
  "compute_checksum b =
     (length (nodes (graph b)),
      length (edges (graph b)),
      take 10 (sort (map fst (nodes (graph b)))))"

datatype error = FileNotFoundError | HTTP_400 | HTTP_500

record build_result =
  nodes_created :: nat
  edges_created :: nat
  res_standards :: nat
  res_clauses :: nat
  res_requirements :: nat
  res_external_standards :: "nat option"
  graph_checksum :: "checksum option"
  new_files_processed :: nat

type_synonym directory = "(string \<times> document option) list"

definition new_files_of :: "directory \<Rightarrow> builder \<Rightarrow> directory" where
  \<comment> \<open>the files whose relative path is not in \<open>processed_files\<close>\<close>
  "new_files_of json_files b = filter (\<lambda>f. fst f \<notin> processed_files b) json_files"

fun load_documents :: "directory \<Rightarrow> document list \<times> string set \<Rightarrow> document list \<times> string set" where
  \<comment> \<open>the loading loop: a file that loads is appended to \<open>documents\<close> and its path added
      to \<open>processed_files\<close>; a file that raises is skipped\<close>
  "load_documents [] acc = acc"
| "load_documents ((rel_path, content) # rest) (documents, processed) =
     (case content of
        None \<Rightarrow> load_documents rest (documents, processed)
      | Some data \<Rightarrow> load_documents rest (documents @ [data], insert rel_path processed))"

definition build_from_directory ::
  "directory option \<Rightarrow> bool \<Rightarrow> bool \<Rightarrow> builder \<Rightarrow> error + (builder \<times> build_result)" where
  \<comment> \<open>\<open>build_from_directory\<close>. The directory is \<open>None\<close> when the path does not exist;
      otherwise it lists the \<open>*.json\<close> files below it in the order of \<open>sorted\<close>, each with
      its relative path (separators normalised) and the document it loads to, \<open>None\<close> when
      opening or parsing it raises.\<close>
  "build_from_directory data_dir enable_structural enable_reference b =
     (case data_dir of
        None \<Rightarrow> Inl FileNotFoundError
      | Some json_files \<Rightarrow>
          (let new_files = new_files_of json_files b
           in if new_files = []
              then (let stats = compute_statistics b
                    in Inr (b, \<lparr>nodes_created = stat_nodes stats,
                                edges_created = stat_edges stats,
                                res_standards = stat_standards stats,
                                res_clauses = stat_clauses stats,
                                res_requirements = stat_requirements stats,
                                res_external_standards = Some (stat_external_standards stats),
                                graph_checksum = None,
                                new_files_processed = 0\<rparr>))
              else (let (documents, processed) = load_documents new_files ([], processed_files b);
                        b1 = create_nodes documents (b\<lparr>processed_files := processed\<rparr>);
                        b2 = (if enable_structural then create_structural_links b1 else b1);
                        b3 = (if enable_reference then create_reference_links b2 else b2);
                        b4 = b3\<lparr>graph := (graph b3)\<lparr>meta_processed_files := processed_files b3\<rparr>\<rparr>;
                        stats = compute_statistics b4
                    in Inr (b4, \<lparr>nodes_created = stat_nodes stats,
                                 edges_created = stat_edges stats,
                                 res_standards = stat_standards stats,
                                 res_clauses = stat_clauses stats,
                                 res_requirements = stat_requirements stats,
                                 res_external_standards = None,
                                 graph_checksum = Some (compute_checksum b4),
                                 new_files_processed = length new_files\<rparr>))))"


section \<open>Hybrid retrieval\<close>

text \<open>
  Of the component profile, the type, the application and the test categories make the
  search terms; the other fields go into the query text only, which is read by the
  semantic provider and the reranker alone. Both are outside the core: the retrieval takes
  the provider's hits (none when no provider is configured or when it fails) and, when
  reranking is enabled and a reranker is loaded, the function from the candidates' texts to
  the indices that \<open>search_engine.rerank\<close> returns for this query.
\<close>

record component_profile =
  component_type :: string
  application :: string
  test_categories :: "string list"

record retrieval_request =
  component_profile :: component_profile
  min_confidence :: real
  max_results :: int

definition keyword_map :: "(string \<times> string list) list" where
  "keyword_map =
     [(''thermal'', [''temperature'', ''heat'', ''thermal'', ''cold'', ''hot'', ''celsius'',
                    [char_of (176 :: nat), CHR ''c''], ''climate'', ''shock'']),
      (''mechanical'', [''vibration'', ''shock'', ''mechanical'', ''force'', ''stress'',
                       ''impact'', ''drop'']),
      (''environmental'', [''humidity'', ''water'', ''dust'', ''environment'', ''climate'',
                          ''moisture'', ''salt'', ''corrosion'', ''ingress'']),
      (''electrical'', [''voltage'', ''current'', ''electrical'', ''power'', ''resistance'',
                       ''insulation'', ''dielectric'', ''short'']),
      (''emc'', [''emc'', ''electromagnetic'', ''interference'', ''emission'', ''immunity'',
                ''electrostatic'', ''esd'', ''conducted'', ''radiated'']),
      (''durability'', [''durability'', ''life'', ''cycle'', ''endurance'', ''aging'', ''wear''])]"

definition category_keywords :: "string \<Rightarrow> string list" where
  \<comment> \<open>\<open>keyword_map[cat.lower()]\<close> when the key is present, nothing otherwise\<close>
  "category_keywords cat =
     (case dict_get keyword_map (lower cat) of None \<Rightarrow> [] | Some ks \<Rightarrow> ks)"

definition search_terms_of :: "component_profile \<Rightarrow> string list" where
  \<comment> \<open>the search terms; \<open>list(set(...))\<close> keeps one copy of each term in an order that
      Python leaves open, here the order of \<open>remdups\<close>\<close>
  "search_terms_of component =
     (let raw = split (lower (component_type component))
                @ split (lower (application component))
                @ map lower (test_categories component)
                @ concat (map category_keywords (test_categories component))
      in remdups (map lower (filter (\<lambda>t. 2 < length t) raw)))"

record candidate =
  node_id :: string
  cand_node_type :: node_kind
  cand_requirement_id :: string
  cand_requirement_type :: string
  cand_text :: string
  cand_keyword :: string
  cand_parent_clause :: string
  semantic_score :: real
  keyword_score :: real
  matched_terms :: "string list"
  retrieval_method :: string

record ranked_result = candidate +
  relevance_score :: real

fun dict_modify :: "('k \<times> 'v) list \<Rightarrow> 'k \<Rightarrow> ('v \<Rightarrow> 'v) \<Rightarrow> ('k \<times> 'v) list" where
  \<comment> \<open>\<open>d[k][field] = value\<close> on a dictionary of dictionaries, for a key that is present\<close>
  "dict_modify [] k f = []"
| "dict_modify ((k', v) # kvs) k f =
     (if k' = k then (k', f v) # kvs else (k', v) # dict_modify kvs k f)"

definition get_or_create_result ::
  "string \<Rightarrow> node_data \<Rightarrow> (string \<times> candidate) list \<Rightarrow> (string \<times> candidate) list" where
  "get_or_create_result nid data combined_results =
     (if \<not> dict_has combined_results nid
      then combined_results @
             [(nid, \<lparr>node_id = nid,
                     cand_node_type = Requirement,
                     cand_requirement_id = nid,
                     cand_requirement_type = default_str ''mandatory'' (requirement_type data),
                     cand_text = default_str [] (node_text data),
                     cand_keyword = default_str ''shall'' (keyword data),
                     cand_parent_clause = default_str [] (parent_clause data),
                     semantic_score = 0,
                     keyword_score = 0,
                     matched_terms = [],
                     retrieval_method = ''hybrid''\<rparr>)]
      else combined_results)"

fun collect_hits :: "(string \<times> real) list \<Rightarrow> (string \<times> real) list \<Rightarrow> (string \<times> real) list" where
  \<comment> \<open>\<open>for hit in sem_hits: semantic_results[hit['node_id']] = hit\<close>, a hit being its
      node id and its relevance score\<close>
  "collect_hits [] semantic_results = semantic_results"
| "collect_hits ((nid, score) # hits) semantic_results =
     collect_hits hits (dict_set semantic_results nid score)"

fun process_semantic ::
  "nxgraph \<Rightarrow> (string \<times> real) list \<Rightarrow> (string \<times> candidate) list \<Rightarrow> (string \<times> candidate) list" where
  \<comment> \<open>\<open>for node_id, hit in semantic_results.items()\<close>\<close>
  "process_semantic g [] combined_results = combined_results"
| "process_semantic g ((nid, score) # rest) combined_results =
     process_semantic g rest
       (case dict_get (nodes g) nid of
          None \<Rightarrow> combined_results
        | Some data \<Rightarrow>
            dict_modify (get_or_create_result nid data combined_results) nid
              (\<lambda>res. res\<lparr>semantic_score := score\<rparr>))"

definition matching_terms :: "string list \<Rightarrow> string \<Rightarrow> string list" where
  \<comment> \<open>the terms that occur in the text, in the order of the term list\<close>
  "matching_terms search_terms req_text = filter (\<lambda>term. str_in term req_text) search_terms"

definition keyword_score_of :: "nat \<Rightarrow> node_data \<Rightarrow> real" where
  "keyword_score_of matches data =
     (let k_score = min 1 (real matches / 6)
      in if requirement_type data = Some ''mandatory'' then min 1 (k_score * 1.2) else k_score)"

definition keyword_scan_of ::
  "string list \<Rightarrow> string \<times> node_data \<Rightarrow> (string \<times> candidate) list \<Rightarrow> (string \<times> candidate) list" where
  \<comment> \<open>the body of the keyword loop over the nodes of the graph\<close>
  "keyword_scan_of search_terms nd combined_results =
     (let nid = fst nd; data = snd nd
      in if node_type data \<noteq> Some Requirement then combined_results
         else (let req_text = lower (default_str [] (node_text data))
               in if req_text = [] then combined_results
                  else (let curr_matched_terms = matching_terms search_terms req_text;
                            matches = length curr_matched_terms
                        in if 0 < matches
                           then dict_modify (get_or_create_result nid data combined_results) nid
                                  (\<lambda>res. res\<lparr>keyword_score := keyword_score_of matches data,
                                             matched_terms := curr_matched_terms\<rparr>)
                           else combined_results)))"

fun process_keyword ::
  "string list \<Rightarrow> (string \<times> node_data) list \<Rightarrow> (string \<times> candidate) list \<Rightarrow> (string \<times> candidate) list" where
  "process_keyword search_terms [] combined_results = combined_results"
| "process_keyword search_terms (nd # rest) combined_results =
     process_keyword search_terms rest (keyword_scan_of search_terms nd combined_results)"

definition combined_results_of ::
  "nxgraph \<Rightarrow> (string \<times> real) list \<Rightarrow> string list \<Rightarrow> (string \<times> candidate) list" where
  \<comment> \<open>\<open>combined_results\<close> after the semantic hits and the keyword scan\<close>
  "combined_results_of g semantic_results terms =
     process_keyword terms (nodes g) (process_semantic g semantic_results [])"

definition final_score_of :: "real \<Rightarrow> real \<Rightarrow> real" where
  \<comment> \<open>the value of \<open>final_score\<close> after the cap\<close>
  "final_score_of s_score k_score =
     (let final_score =
            (if 0 < s_score \<and> 0 < k_score then (0.6 * s_score) + (0.4 * k_score) + 0.1
             else if 0 < s_score then s_score * 0.9
             else if 0 < k_score then k_score * 0.8
             else 0)
      in min 1 final_score)"

fun final_scoring :: "real \<Rightarrow> candidate list \<Rightarrow> ranked_result list" where
  \<comment> \<open>the loop that fills \<open>final_list\<close>\<close>
  "final_scoring threshold [] = []"
| "final_scoring threshold (res # rest) =
     (let final_score = final_score_of (semantic_score res) (keyword_score res);
          scored = candidate.extend res \<lparr>relevance_score = py_round final_score 3\<rparr>
      in if threshold \<le> final_score then scored # final_scoring threshold rest
         else final_scoring threshold rest)"

definition sort_by_relevance :: "ranked_result list \<Rightarrow> ranked_result list" where
  \<comment> \<open>\<open>final_list.sort(key=lambda x: x['relevance_score'], reverse=True)\<close>: a stable sort,
      results with equal keys keep their order\<close>
  "sort_by_relevance final_list = sort_key (\<lambda>x. - relevance_score x) final_list"

definition apply_reranker ::
  "(string list \<Rightarrow> int list) option \<Rightarrow> ranked_result list \<Rightarrow> error + (ranked_result list \<times> bool)" where
  \<comment> \<open>the reranking step: the reordered list and the flag \<open>reranked\<close>; an index outside
      the list raises IndexError, which the handler of the endpoint turns into status 500\<close>
  "apply_reranker reranker final_list =
     (case reranker of
        None \<Rightarrow> Inr (final_list, False)
      | Some rerank \<Rightarrow>
          if final_list = [] then Inr (final_list, False)
          else (case those (map (py_index final_list) (rerank (map cand_text final_list))) of
                  None \<Rightarrow> Inl HTTP_500
                | Some reranked_list \<Rightarrow> Inr (reranked_list, True)))"

record retrieval_response =
  results :: "ranked_result list"
  total_results :: nat
  search_terms :: "string list"
  total_requirements_searched :: nat
  candidates_found :: nat
  semantic_hits :: nat
  response_method :: string

definition query_knowledge_graph ::
  "builder option \<Rightarrow> (string \<times> real) list \<Rightarrow> (string list \<Rightarrow> int list) option \<Rightarrow>
   retrieval_request \<Rightarrow> error + retrieval_response" where
  \<comment> \<open>\<open>query_knowledge_graph\<close>; the builder is \<open>None\<close> when no graph is built or loaded\<close>
  "query_knowledge_graph graph_builder sem_hits reranker request =
     (case graph_builder of
        None \<Rightarrow> Inl HTTP_400
      | Some b \<Rightarrow>
          (let g = graph b;
               semantic_results = collect_hits sem_hits [];
               terms = search_terms_of (component_profile request);
               combined_results = combined_results_of g semantic_results terms;
               final_list =
                 sort_by_relevance
                   (final_scoring (min_confidence request) (dict_values combined_results))
           in (case apply_reranker reranker final_list of
                 Inl e \<Rightarrow> Inl e
               | Inr (ranked, reranked) \<Rightarrow>
                   (let final_results = py_slice_to ranked (max_results request)
                    in Inr \<lparr>results = final_results,
                            total_results = length final_results,
                            search_terms = terms,
                            total_requirements_searched = count_kind g Requirement,
                            candidates_found = length combined_results,
                            semantic_hits = length semantic_results,
                            response_method =
                              (if reranked then ''hybrid_reranked'' else ''hybrid'')\<rparr>))))"


section \<open>Properties stated of a graph\<close>


definition first_key_present :: "nxgraph \<Rightarrow> bool" where
  \<comment> \<open>every pair of nodes that has an edge has the edge of key 0: so it is in a graph
      whose edges were all added without a key and never removed\<close>
  "first_key_present g = (\<forall>e \<in> set (edges g). has_edge_key g (src e) (dst e) 0)"

definition structurally_linked ::
  "(string \<rightharpoonup> string) \<Rightarrow> nxgraph \<Rightarrow> string \<times> node_data \<Rightarrow> bool" where
  \<comment> \<open>the structural pass has nothing to add for this node: the edge from its parent
      and the edges to its siblings are there\<close>
  "structurally_linked lookup g nd =
     (node_type (snd nd) = Some Clause \<longrightarrow>
      (\<forall>p pn. parent_id (snd nd) = Some p \<and> p \<noteq> [] \<and> lookup p = Some pn \<longrightarrow>
         has_edge g pn (fst nd) \<and>
         (\<forall>pd. dict_get (nodes g) pn = Some pd \<and>
               (\<exists>c. clause_id (snd nd) = Some c \<and> c \<in> set (children_ids pd)) \<longrightarrow>
               (\<forall>s \<in> set (children_ids pd). Some s \<noteq> clause_id (snd nd) \<longrightarrow>
                  (\<forall>sn. lookup s = Some sn \<longrightarrow> has_edge_key g (fst nd) sn 0)))))"

definition reference_linked ::
  "(string \<rightharpoonup> string) \<Rightarrow> nxgraph \<Rightarrow> string \<times> node_data \<Rightarrow> bool" where
  \<comment> \<open>the reference pass has nothing to add for this node\<close>
  "reference_linked lookup g nd =
     (node_type (snd nd) = Some Clause \<longrightarrow>
      (\<forall>r \<in> set (internal_resolved (references (snd nd))).
         \<forall>m. lookup r = Some m \<longrightarrow> has_edge g (fst nd) m) \<and>
      (\<forall>s \<in> set (standards (references (snd nd))).
         has_node g (''EXT::'' @ s) \<and> has_edge g (fst nd) (''EXT::'' @ s)))"

definition grows_to :: "nxgraph \<Rightarrow> nxgraph \<Rightarrow> bool" where
  \<comment> \<open>the second graph is the first with nodes appended that are not clauses and with
      edges added\<close>
  "grows_to g g' =
     ((\<exists>zs. nodes g' = nodes g @ zs \<and> (\<forall>z \<in> set zs. node_type (snd z) \<noteq> Some Clause)) \<and>
      set (edges g) \<subseteq> set (edges g'))"


section \<open>Example inputs\<close>

definition no_references :: references_t where
  "no_references = \<lparr>internal_resolved = [], standards = []\<rparr>"

definition doc_z :: document where
  \<comment> \<open>a clause with chunk id \<open>z\<close> and one requirement\<close>
  "doc_z =
     \<lparr>doc_chunk_id = ''z'', doc_document_id = ''D'', doc_clause_id = ''4.2'',
      doc_parent_id = None, doc_children_ids = [], doc_references = no_references,
      doc_requirements =
        [\<lparr>rq_type = Some ''recommended'', rq_keyword = Some ''should'',
          rq_text = Some ''Vibration test''\<rparr>]\<rparr>"

definition doc_a :: document where
  \<comment> \<open>the same clause under chunk id \<open>a\<close>\<close>
  "doc_a = doc_z\<lparr>doc_chunk_id := ''a'', doc_clause_id := ''4.3''\<rparr>"

definition two_clause_directory :: directory where
  "two_clause_directory = [(''a.json'', Some doc_z), (''b.json'', Some doc_a)]"

definition built_from :: "directory \<Rightarrow> builder" where
  \<comment> \<open>the builder after one build of a directory from nothing, with both link passes\<close>
  "built_from json_files =
     (case build_from_directory (Some json_files) True True (new_builder None) of
        Inl e \<Rightarrow> new_builder None
      | Inr (b, r) \<Rightarrow> b)"

definition two_clause_builder :: builder where
  "two_clause_builder = built_from two_clause_directory"

definition partly_unloadable_directory :: directory where
  \<comment> \<open>one file that loads and one that does not parse\<close>
  "partly_unloadable_directory = [(''a.json'', Some doc_z), (''bad.json'', None)]"

definition duplicated_directory :: directory where
  \<comment> \<open>the same clause document under two file names\<close>
  "duplicated_directory = [(''a.json'', Some doc_z), (''copy.json'', Some doc_z)]"




definition doc_p :: document where
  \<comment> \<open>clause 1 with the children 1.1 and 1.2\<close>
  "doc_p =
     \<lparr>doc_chunk_id = ''P'', doc_document_id = ''D'', doc_clause_id = ''1'',
      doc_parent_id = None, doc_children_ids = [''1.1'', ''1.2''],
      doc_references = no_references, doc_requirements = []\<rparr>"

definition doc_x :: document where
  \<comment> \<open>clause 1.1, which refers to its sibling 1.2\<close>
  "doc_x =
     \<lparr>doc_chunk_id = ''X'', doc_document_id = ''D'', doc_clause_id = ''1.1'',
      doc_parent_id = Some ''1'', doc_children_ids = [],
      doc_references = \<lparr>internal_resolved = [''1.2''], standards = []\<rparr>,
      doc_requirements = []\<rparr>"

definition doc_y :: document where
  \<comment> \<open>clause 1.2, which refers to clause 1\<close>
  "doc_y =
     \<lparr>doc_chunk_id = ''Y'', doc_document_id = ''D'', doc_clause_id = ''1.2'',
      doc_parent_id = Some ''1'', doc_children_ids = [],
      doc_references = \<lparr>internal_resolved = [''1''], standards = []\<rparr>,
      doc_requirements = []\<rparr>"

definition sibling_directory :: directory where
  "sibling_directory = [(''p.json'', Some doc_p), (''x.json'', Some doc_x), (''y.json'', Some doc_y)]"


definition doc_without_ids :: document where
  "doc_without_ids = doc_z\<lparr>doc_chunk_id := []\<rparr>"

definition mixed_directory :: directory where
  "mixed_directory = [(''a.json'', Some doc_z), (''bad.json'', None), (''noid.json'', Some doc_without_ids)]"



definition mechanical_profile :: component_profile where
  "mechanical_profile =
     \<lparr>component_type = [], application = [], test_categories = [''mechanical'']\<rparr>"

definition mechanical_request :: retrieval_request where
  "mechanical_request =
     \<lparr>component_profile = mechanical_profile, min_confidence = 1 / 10, max_results = 10\<rparr>"

definition tight_request :: retrieval_request where
  \<comment> \<open>the same request with a threshold between the rounded and the unrounded score\<close>
  "tight_request = mechanical_request\<lparr>min_confidence := 1333 / 10000\<rparr>"

definition sample_candidate :: "string \<Rightarrow> real \<Rightarrow> real \<Rightarrow> candidate" where
  "sample_candidate chunk s k =
     \<lparr>node_id = chunk @ ''::req_0'', cand_node_type = Requirement,
      cand_requirement_id = chunk @ ''::req_0'', cand_requirement_type = ''recommended'',
      cand_text = ''Vibration test'', cand_keyword = ''should'', cand_parent_clause = chunk,
      semantic_score = s, keyword_score = k, matched_terms = [''vibration''],
      retrieval_method = ''hybrid''\<rparr>"

definition sample_result :: "string \<Rightarrow> ranked_result" where
  "sample_result chunk =
     candidate.extend (sample_candidate chunk 0 (1 / 6)) \<lparr>relevance_score = 133 / 1000\<rparr>"

definition mechanical_response :: retrieval_response where
  "mechanical_response =
     \<lparr>results = [sample_result ''z'', sample_result ''a''],
      total_results = 2,
      search_terms = [''vibration'', ''shock'', ''mechanical'', ''force'', ''stress'',
                      ''impact'', ''drop''],
      total_requirements_searched = 2, candidates_found = 2, semantic_hits = 0,
      response_method = ''hybrid''\<rparr>"

definition vibration_requirement :: node_data where
  "vibration_requirement =
     no_attrs\<lparr>node_type := Some Requirement, requirement_type := Some ''mandatory'',
              node_text := Some ''Shall withstand VIBRATION and shock''\<rparr>"

section \<open>Properties of the dictionaries\<close>

lemma dict_has_iff: "dict_has d k \<longleftrightarrow> dict_get d k \<noteq> None"
  by (simp add: dict_has_def dict_get_def map_of_eq_None_iff)

lemma dict_get_modify:
  "dict_get (dict_modify d k f) k' =
     (if k' = k then map_option f (dict_get d k) else dict_get d k')"
  by (induction d) (auto simp: dict_get_def)

lemma dict_get_append:
  "dict_get (d @ [(k, v)]) k' =
     (case dict_get d k' of Some x \<Rightarrow> Some x | None \<Rightarrow> if k' = k then Some v else None)"
  by (auto simp: dict_get_def map_add_def split: option.splits)

section \<open>Properties of the retrieval\<close>

subsection \<open>Final scoring\<close>

lemma final_scoring_eq:
  "final_scoring t cs =
     map (\<lambda>res. candidate.extend res
                  \<lparr>relevance_score =
                     py_round (final_score_of (semantic_score res) (keyword_score res)) 3\<rparr>)
         (filter (\<lambda>res. t \<le> final_score_of (semantic_score res) (keyword_score res)) cs)"
  by (induction cs) (simp_all add: Let_def)

lemma extend_scores [simp]:
  "semantic_score (candidate.extend res x) = semantic_score res"
  "keyword_score (candidate.extend res x) = keyword_score res"
  "node_id (candidate.extend res x) = node_id res"
  "relevance_score (candidate.extend res \<lparr>relevance_score = v\<rparr>) = v"
  by (simp_all add: candidate.defs ranked_result.defs)

lemma extend_inject: "candidate.extend res x = candidate.extend res' x' \<Longrightarrow> res = res'"
  by (cases res, cases res') (simp add: candidate.defs)

lemma final_scoring_threshold:
  "r \<in> set (final_scoring t cs) \<Longrightarrow> t \<le> final_score_of (semantic_score r) (keyword_score r)"
  by (auto simp: final_scoring_eq)

lemma sample_candidate_sel [simp]:
  "semantic_score (sample_candidate c s k) = s"
  "keyword_score (sample_candidate c s k) = k"
  "node_id (sample_candidate c s k) = c @ ''::req_0''"
  by (simp_all add: sample_candidate_def)

text \<open>
  C1. Every candidate of the combined results gets the final score
  \<open>min(1, 0.6 s + 0.4 k + 0.1)\<close> when its semantic score \<open>s\<close> and its keyword score \<open>k\<close> are
  both positive, \<open>min(1, 0.9 s)\<close> when only \<open>s\<close> is positive and \<open>min(1, 0.8 k)\<close> when only
  \<open>k\<close> is positive; the candidate enters the final list, with this score rounded to three
  decimals as its relevance, exactly when the score reaches the threshold.
\<close>

theorem fused_score_by_case:
  assumes "res \<in> set (dict_values combined_results)"
  shows "(0 < semantic_score res \<and> 0 < keyword_score res \<longrightarrow>
            final_score_of (semantic_score res) (keyword_score res) =
              min 1 (0.6 * semantic_score res + 0.4 * keyword_score res + 0.1)) \<and>
         (0 < semantic_score res \<and> \<not> 0 < keyword_score res \<longrightarrow>
            final_score_of (semantic_score res) (keyword_score res) =
              min 1 (0.9 * semantic_score res)) \<and>
         (\<not> 0 < semantic_score res \<and> 0 < keyword_score res \<longrightarrow>
            final_score_of (semantic_score res) (keyword_score res) =
              min 1 (0.8 * keyword_score res)) \<and>
         (candidate.extend res
            \<lparr>relevance_score =
               py_round (final_score_of (semantic_score res) (keyword_score res)) 3\<rparr>
            \<in> set (final_scoring threshold (dict_values combined_results))
          \<longleftrightarrow> threshold \<le> final_score_of (semantic_score res) (keyword_score res))"
proof -
  have "candidate.extend res
            \<lparr>relevance_score =
               py_round (final_score_of (semantic_score res) (keyword_score res)) 3\<rparr>
            \<in> set (final_scoring threshold (dict_values combined_results))
          \<longleftrightarrow> threshold \<le> final_score_of (semantic_score res) (keyword_score res)"
    using assms by (auto simp: final_scoring_eq dest: extend_inject)
  then show ?thesis
    by (simp add: final_score_of_def Let_def mult.commute)
qed

theorem fused_score_by_case_witness:
  "final_score_of (1 / 2) (1 / 2) = 3 / 5 \<and>
   final_score_of (1 / 2) 0 = 9 / 20 \<and>
   final_score_of 0 (1 / 2) = 2 / 5"
proof -
  have m: "sample_candidate ''z'' s k \<in> set (dict_values [(''z::req_0'', sample_candidate ''z'' s k)])"
    for s k
    by (simp add: dict_values_def)
  from fused_score_by_case [OF m [of "1 / 2" "1 / 2"], of 0]
  have a: "final_score_of (1 / 2) (1 / 2) = 3 / 5"
    by simp
  from fused_score_by_case [OF m [of "1 / 2" 0], of 0]
  have b: "final_score_of (1 / 2) 0 = 9 / 20"
    by simp
  from fused_score_by_case [OF m [of 0 "1 / 2"], of 0]
  have c: "final_score_of 0 (1 / 2) = 2 / 5"
    by simp
  from a b c show ?thesis by simp
qed

text \<open>
  C4, as stated, fails: with keyword score 1, a candidate without a semantic score gets
  \<open>0.8\<close>, and the same candidate with semantic score \<open>0.1\<close> gets \<open>0.56\<close>.
\<close>

theorem fusion_not_monotone:
  "(0 :: real) \<le> 1 / 10 \<and> final_score_of (1 / 10) 1 < final_score_of 0 1"
  by (simp add: final_score_of_def)

text \<open>
  C4, amended. For a fixed keyword score, raising the semantic score never lowers the final
  score when the lower semantic score is already positive, or when the keyword score is at
  most \<open>1/4\<close>; for a fixed semantic score, raising the keyword score never lowers the final
  score when the lower keyword score is already positive, or when the semantic score is at
  most \<open>1/3\<close>.
\<close>

theorem fusion_monotone_within_case:
  "(s \<le> s' \<and> (0 < s \<or> k \<le> 1 / 4) \<longrightarrow> final_score_of s k \<le> final_score_of s' k) \<and>
   (k \<le> k' \<and> (0 < k \<or> s \<le> 1 / 3) \<longrightarrow> final_score_of s k \<le> final_score_of s k')"
  by (auto simp: final_score_of_def Let_def min_def)

theorem fusion_monotone_within_case_witness:
  "final_score_of (1 / 5) 1 \<le> final_score_of (1 / 2) 1 \<and>
   final_score_of 0 (1 / 4) \<le> final_score_of (1 / 2) (1 / 4) \<and>
   final_score_of 1 (1 / 5) \<le> final_score_of 1 (1 / 2) \<and>
   final_score_of (1 / 3) 0 \<le> final_score_of (1 / 3) (1 / 2)"
  using fusion_monotone_within_case [of "1 / 5" "1 / 2" 1 1]
        fusion_monotone_within_case [of 0 "1 / 2" "1 / 4" "1 / 4"]
        fusion_monotone_within_case [of 1 1 "1 / 5" "1 / 2"]
        fusion_monotone_within_case [of "1 / 3" "1 / 3" 0 "1 / 2"]
  by simp


subsection \<open>Ranking, reranking and truncation\<close>

lemma set_sort_by_relevance: "set (sort_by_relevance l) = set l"
  by (simp add: sort_by_relevance_def)

lemma set_py_slice_to: "set (py_slice_to xs n) \<subseteq> set xs"
  by (auto simp: py_slice_to_def dest: in_set_takeD)

lemma py_slice_to_prefix: "prefix (py_slice_to xs n) xs"
  by (simp add: py_slice_to_def take_is_prefix)

lemma py_index_in_set: "py_index xs i = Some x \<Longrightarrow> x \<in> set xs"
  by (auto simp: py_index_def Let_def split: if_splits)

lemma those_py_index_subset:
  "those (map (py_index xs) idxs) = Some ys \<Longrightarrow> set ys \<subseteq> set xs"
proof (induction idxs arbitrary: ys)
  case Nil
  then show ?case by simp
next
  case (Cons i idxs)
  then show ?case
    by (auto split: option.splits dest: py_index_in_set)
qed

lemma apply_reranker_subset:
  "apply_reranker rr l = Inr (ranked, flag) \<Longrightarrow> set ranked \<subseteq> set l"
  by (auto simp: apply_reranker_def split: option.splits if_splits dest: those_py_index_subset)

lemma two_clause_query:
  "query_knowledge_graph (Some two_clause_builder) [] None mechanical_request = Inr mechanical_response"
  by code_simp

lemma query_results:
  assumes "query_knowledge_graph graph_builder sem_hits reranker request = Inr response"
  shows "\<exists>b ranked flag. graph_builder = Some b \<and>
           apply_reranker reranker
             (sort_by_relevance
                (final_scoring (min_confidence request)
                   (dict_values (combined_results_of (graph b) (collect_hits sem_hits [])
                      (search_terms_of (component_profile request)))))) = Inr (ranked, flag) \<and>
           results response = py_slice_to ranked (max_results request)"
proof (cases graph_builder)
  case None
  with assms show ?thesis by (simp add: query_knowledge_graph_def)
next
  case (Some b)
  show ?thesis
  proof (cases "apply_reranker reranker
             (sort_by_relevance
                (final_scoring (min_confidence request)
                   (dict_values (combined_results_of (graph b) (collect_hits sem_hits [])
                      (search_terms_of (component_profile request))))))")
    case (Inl e)
    with assms Some show ?thesis by (simp add: query_knowledge_graph_def Let_def)
  next
    case (Inr p)
    obtain ranked flag where p: "p = (ranked, flag)" by (cases p)
    from assms Some Inr p have "results response = py_slice_to ranked (max_results request)"
      by (auto simp: query_knowledge_graph_def Let_def)
    with Some Inr p show ?thesis by simp
  qed
qed

lemma py_round_lower: "x - 1 / 2000 \<le> py_round x 3"
proof -
  define y where "y = x * 10 ^ 3"
  define f where "f = \<lfloor>y\<rfloor>"
  define n where "n = (if y - of_int f < 1 / 2 then f else if 1 / 2 < y - of_int f then f + 1
                       else if even f then f else f + 1)"
  have fl: "of_int f \<le> y" "y < of_int f + 1"
    unfolding f_def by linarith+
  have "y - 1 / 2 \<le> of_int n"
    using fl by (auto simp: n_def)
  then have "(y - 1 / 2) / 1000 \<le> of_int n / 1000"
    by (simp add: divide_right_mono)
  moreover have "py_round x 3 = of_int n / 1000"
    by (simp add: py_round_def Let_def n_def f_def y_def)
  moreover have "(y - 1 / 2) / 1000 = x - 1 / 2000"
    by (simp add: y_def field_simps)
  ultimately show ?thesis by simp
qed

lemma final_scoring_relevance:
  "r \<in> set (final_scoring t cs) \<Longrightarrow>
   relevance_score r = py_round (final_score_of (semantic_score r) (keyword_score r)) 3"
  by (auto simp: final_scoring_eq)

lemma tight_query:
  "query_knowledge_graph (Some two_clause_builder) [] None tight_request = Inr mechanical_response"
  by code_simp

text \<open>
  C8, as stated, fails for the score that a returned result carries: with the threshold
  \<open>0.1333\<close> both requirements pass the filter on their final score \<open>2/15\<close>, and each is
  returned with the relevance score \<open>0.133\<close>, which is below the threshold.
\<close>

theorem reported_score_below_threshold:
  "query_knowledge_graph (Some two_clause_builder) [] None tight_request = Inr mechanical_response \<and>
   sample_result ''z'' \<in> set (results mechanical_response) \<and>
   relevance_score (sample_result ''z'') < min_confidence tight_request"
  using tight_query
  by (simp add: mechanical_response_def sample_result_def tight_request_def)

text \<open>
  C8, amended. Every result that a query returns has a final score, the fused score of its
  semantic and keyword scores before rounding, of at least the request's \<open>min_confidence\<close>;
  the relevance score that the result carries is this score rounded to three decimals, so
  it is at least \<open>min_confidence - 0.0005\<close>. This holds with and without a reranker, and
  for every \<open>max_results\<close>.
\<close>

theorem results_meet_threshold_before_rounding:
  assumes "query_knowledge_graph graph_builder sem_hits reranker request = Inr response"
    and "r \<in> set (results response)"
  shows "min_confidence request \<le> final_score_of (semantic_score r) (keyword_score r) \<and>
         relevance_score r = py_round (final_score_of (semantic_score r) (keyword_score r)) 3 \<and>
         min_confidence request - 1 / 2000 \<le> relevance_score r"
proof -
  from query_results [OF assms(1)] obtain b :: builder and ranked flag where
    rr: "apply_reranker reranker
           (sort_by_relevance
              (final_scoring (min_confidence request)
                 (dict_values (combined_results_of (graph b) (collect_hits sem_hits [])
                    (search_terms_of (component_profile request)))))) = Inr (ranked, flag)"
    and res: "results response = py_slice_to ranked (max_results request)"
    by blast
  from assms(2) res have "r \<in> set ranked"
    using set_py_slice_to by fastforce
  with apply_reranker_subset [OF rr] have
    mem: "r \<in> set (final_scoring (min_confidence request)
                 (dict_values (combined_results_of (graph b) (collect_hits sem_hits [])
                    (search_terms_of (component_profile request)))))"
    by (auto simp: set_sort_by_relevance)
  from mem have t: "min_confidence request \<le> final_score_of (semantic_score r) (keyword_score r)"
    by (rule final_scoring_threshold)
  from mem have e: "relevance_score r = py_round (final_score_of (semantic_score r) (keyword_score r)) 3"
    by (rule final_scoring_relevance)
  from py_round_lower [of "final_score_of (semantic_score r) (keyword_score r)"] t e
  have "min_confidence request - 1 / 2000 \<le> relevance_score r"
    by simp
  with t e show ?thesis by simp
qed

theorem results_meet_threshold_before_rounding_witness:
  "query_knowledge_graph (Some two_clause_builder) [] None mechanical_request = Inr mechanical_response \<and>
   sample_result ''a'' \<in> set (results mechanical_response) \<and>
   min_confidence mechanical_request
     \<le> final_score_of (semantic_score (sample_result ''a'')) (keyword_score (sample_result ''a'')) \<and>
   min_confidence mechanical_request - 1 / 2000 \<le> relevance_score (sample_result ''a'')"
proof -
  have m: "sample_result ''a'' \<in> set (results mechanical_response)"
    by (simp add: mechanical_response_def)
  from results_meet_threshold_before_rounding [OF two_clause_query m] two_clause_query m
  show ?thesis by simp
qed

lemma sorted_desc_sort_by_relevance:
  "sorted_wrt (\<lambda>x y. relevance_score y \<le> relevance_score x) (sort_by_relevance l)"
proof -
  have "sorted (map (\<lambda>x. - relevance_score x) (sort_by_relevance l))"
    by (simp add: sort_by_relevance_def)
  then show ?thesis
    by (simp add: sorted_map)
qed

lemma sorted_wrt_prefix: "prefix xs ys \<Longrightarrow> sorted_wrt P ys \<Longrightarrow> sorted_wrt P xs"
  by (auto simp: prefix_def sorted_wrt_append)

text \<open>
  C3, as stated, fails: two requirements with equal final scores are returned in the order
  in which the graph holds them, here \<open>z::req_0\<close> before \<open>a::req_0\<close>.
\<close>

theorem tie_not_broken_by_node_id:
  "query_knowledge_graph (Some two_clause_builder) [] None mechanical_request = Inr mechanical_response \<and>
   map node_id (results mechanical_response) = [''z::req_0'', ''a::req_0''] \<and>
   final_score_of (semantic_score (sample_result ''z'')) (keyword_score (sample_result ''z''))
     = final_score_of (semantic_score (sample_result ''a'')) (keyword_score (sample_result ''a'')) \<and>
   \<not> (''z::req_0'' \<le> ''a::req_0'')"
proof -
  have "\<not> (''z::req_0'' \<le> ''a::req_0'')" by code_simp
  with two_clause_query show ?thesis
    by (simp add: mechanical_response_def sample_result_def)
qed


text \<open>
  C3, amended. When no reranker is applied, the returned list is in descending order of the
  relevance score, which is the final score rounded to three decimals, and the results that
  share a relevance score \<open>v\<close> stand in the order in which the final scoring met them, that
  is the order in which the candidates were created; node ids play no part.
\<close>

theorem results_sorted_by_relevance:
  assumes "query_knowledge_graph (Some b) sem_hits None request = Inr response"
  shows "sorted_wrt (\<lambda>x y. relevance_score y \<le> relevance_score x) (results response) \<and>
         prefix (filter (\<lambda>r. relevance_score r = v) (results response))
                (filter (\<lambda>r. relevance_score r = v)
                   (final_scoring (min_confidence request)
                      (dict_values (combined_results_of (graph b) (collect_hits sem_hits [])
                         (search_terms_of (component_profile request))))))"
proof -
  let ?fl = "final_scoring (min_confidence request)
               (dict_values (combined_results_of (graph b) (collect_hits sem_hits [])
                  (search_terms_of (component_profile request))))"
  from query_results [OF assms] have res: "results response = py_slice_to (sort_by_relevance ?fl) (max_results request)"
    by (auto simp: apply_reranker_def)
  have p: "prefix (results response) (sort_by_relevance ?fl)"
    unfolding res by (rule py_slice_to_prefix)
  have stable: "filter (\<lambda>r. relevance_score r = v) (sort_by_relevance ?fl)
                  = filter (\<lambda>r. relevance_score r = v) ?fl"
    using sort_key_stable [of "\<lambda>x. - relevance_score x" "- v" ?fl]
    by (simp add: sort_by_relevance_def)
  have "prefix (filter (\<lambda>r. relevance_score r = v) (results response))
               (filter (\<lambda>r. relevance_score r = v) (sort_by_relevance ?fl))"
    using p by (rule filter_mono_prefix)
  with stable sorted_wrt_prefix [OF p sorted_desc_sort_by_relevance] show ?thesis
    by simp
qed

theorem results_sorted_by_relevance_witness:
  "query_knowledge_graph (Some two_clause_builder) [] None mechanical_request = Inr mechanical_response \<and>
   sorted_wrt (\<lambda>x y. relevance_score y \<le> relevance_score x) (results mechanical_response)"
  using results_sorted_by_relevance [OF two_clause_query] two_clause_query
  by simp

subsection \<open>Keyword scan\<close>

lemma dict_get_get_or_create_other:
  "k' \<noteq> nid \<Longrightarrow> dict_get (get_or_create_result nid data c) k' = dict_get c k'"
  by (auto simp: get_or_create_result_def dict_get_append split: option.splits)

lemma dict_get_get_or_create_same:
  "\<exists>res. dict_get (get_or_create_result nid data c) nid = Some res"
  by (auto simp: get_or_create_result_def dict_get_append dict_has_iff split: option.splits)

lemma keyword_scan_other:
  "k' \<noteq> fst nd \<Longrightarrow> dict_get (keyword_scan_of terms nd c) k' = dict_get c k'"
  by (simp add: keyword_scan_of_def Let_def dict_get_modify dict_get_get_or_create_other)

lemma process_keyword_other:
  "k' \<notin> fst ` set ns \<Longrightarrow> dict_get (process_keyword terms ns c) k' = dict_get c k'"
  by (induction ns arbitrary: c) (simp_all add: keyword_scan_other)

lemma process_keyword_append:
  "process_keyword terms (xs @ ys) c = process_keyword terms ys (process_keyword terms xs c)"
  by (induction xs arbitrary: c) simp_all

lemma process_keyword_at:
  assumes "distinct (map fst ns)" and "(nid, data) \<in> set ns"
  shows "\<exists>c'. dict_get c' nid = dict_get c nid \<and>
           dict_get (process_keyword terms ns c) nid
             = dict_get (keyword_scan_of terms (nid, data) c') nid"
proof -
  from assms(2) obtain pre post where ns: "ns = pre @ (nid, data) # post"
    by (auto dest: split_list)
  with assms(1) have out: "nid \<notin> fst ` set pre" "nid \<notin> fst ` set post"
    by auto
  let ?c' = "process_keyword terms pre c"
  have "dict_get ?c' nid = dict_get c nid"
    using out(1) by (rule process_keyword_other)
  moreover have "dict_get (process_keyword terms ns c) nid
                   = dict_get (keyword_scan_of terms (nid, data) ?c') nid"
    using out(2) by (simp add: ns process_keyword_append process_keyword_other)
  ultimately show ?thesis by blast
qed

lemma keyword_scan_hit:
  assumes "node_type data = Some Requirement"
    and "0 < length (matching_terms terms (lower (default_str [] (node_text data))))"
    and "lower (default_str [] (node_text data)) \<noteq> []"
  shows "\<exists>res. dict_get (keyword_scan_of terms (nid, data) c) nid = Some res \<and>
           keyword_score res =
             keyword_score_of (length (matching_terms terms (lower (default_str [] (node_text data))))) data"
proof -
  obtain res0 where "dict_get (get_or_create_result nid data c) nid = Some res0"
    using dict_get_get_or_create_same by blast
  with assms show ?thesis
    by (simp add: keyword_scan_of_def Let_def dict_get_modify)
qed

lemma keyword_scan_miss:
  assumes "length (matching_terms terms (lower (default_str [] (node_text data)))) = 0"
  shows "keyword_scan_of terms (nid, data) c = c"
  using assms by (simp add: keyword_scan_of_def Let_def)

lemma search_terms_long: "t \<in> set (search_terms_of component) \<Longrightarrow> 2 < length t"
  by (auto simp: search_terms_of_def Let_def lower_def)

lemma search_terms_distinct: "distinct (search_terms_of component)"
  by (simp add: search_terms_of_def Let_def)

lemma matches_card:
  "length (matching_terms (search_terms_of component) txt) =
   card {t \<in> set (search_terms_of component). str_in t txt}"
  by (simp add: matching_terms_def distinct_length_filter search_terms_distinct Int_def conj_commute)

lemma matches_empty_text:
  "length (matching_terms (search_terms_of component) []) = 0"
  using search_terms_long by (fastforce simp: matching_terms_def filter_empty_conv)

lemma str_in_iff_sublist: "str_in t s \<longleftrightarrow> sublist t s"
  by (induction s) (auto simp: sublist_Cons_right)

lemma vibration_matches:
  "length (matching_terms (search_terms_of mechanical_profile)
             (lower (default_str [] (node_text vibration_requirement)))) = 2"
  by code_simp

text \<open>
  C7. For a Requirement node of the graph, let \<open>matches\<close> be the number of distinct search
  terms that occur in its lower-cased text. When \<open>matches\<close> is positive the keyword scan
  leaves the node with keyword score \<open>min(1, matches / 6)\<close>, multiplied by \<open>1.2\<close> and capped
  again at \<open>1\<close> when the requirement type is \<open>mandatory\<close>; when \<open>matches\<close> is zero the scan
  leaves the node's entry as it found it, absent if it was absent. Six matches give \<open>1\<close>,
  three matches give \<open>1/2\<close> on a requirement that is not mandatory.
\<close>

theorem lexical_score_of_requirement:
  assumes "distinct (map fst ns)"
    and "(nid, data) \<in> set ns"
    and "node_type data = Some Requirement"
    and "matches = card {t \<in> set (search_terms_of component).
                          sublist t (lower (default_str [] (node_text data)))}"
  shows "(0 < matches \<longrightarrow>
            (\<exists>res. dict_get (process_keyword (search_terms_of component) ns combined_results) nid = Some res \<and>
                   keyword_score res =
                     (if requirement_type data = Some ''mandatory''
                      then min 1 (min 1 (real matches / 6) * 1.2)
                      else min 1 (real matches / 6)))) \<and>
         (matches = 0 \<longrightarrow>
            dict_get (process_keyword (search_terms_of component) ns combined_results) nid
              = dict_get combined_results nid) \<and>
         keyword_score_of 6 data = 1 \<and>
         (requirement_type data \<noteq> Some ''mandatory'' \<longrightarrow> keyword_score_of 3 data = 1 / 2)"
proof -
  let ?terms = "search_terms_of component"
  let ?txt = "lower (default_str [] (node_text data))"
  have m: "matches = length (matching_terms ?terms ?txt)"
    using assms(4) by (simp add: matches_card str_in_iff_sublist)
  from process_keyword_at [OF assms(1,2)] obtain c' where
    c': "dict_get c' nid = dict_get combined_results nid"
    and pk: "dict_get (process_keyword ?terms ns combined_results) nid
               = dict_get (keyword_scan_of ?terms (nid, data) c') nid"
    by blast
  have hit: "0 < matches \<longrightarrow>
            (\<exists>res. dict_get (process_keyword ?terms ns combined_results) nid = Some res \<and>
                   keyword_score res =
                     (if requirement_type data = Some ''mandatory''
                      then min 1 (min 1 (real matches / 6) * 1.2)
                      else min 1 (real matches / 6)))"
  proof
    assume pos: "0 < matches"
    have "?txt \<noteq> []"
    proof
      assume "?txt = []"
      with m matches_empty_text [of component] pos show False by simp
    qed
    then have ne: "?txt \<noteq> []" .
    from pos m have len: "0 < length (matching_terms ?terms ?txt)" by simp
    from keyword_scan_hit [OF assms(3) len ne, of nid c'] obtain res where
      r1: "dict_get (keyword_scan_of ?terms (nid, data) c') nid = Some res" and
      r2: "keyword_score res = keyword_score_of (length (matching_terms ?terms ?txt)) data"
      by blast
    from r2 m have "keyword_score res =
                     (if requirement_type data = Some ''mandatory''
                      then min 1 (min 1 (real matches / 6) * 1.2)
                      else min 1 (real matches / 6))"
      by (simp add: keyword_score_of_def Let_def)
    with r1 pk
    show "\<exists>res. dict_get (process_keyword ?terms ns combined_results) nid = Some res \<and>
                   keyword_score res =
                     (if requirement_type data = Some ''mandatory''
                      then min 1 (min 1 (real matches / 6) * 1.2)
                      else min 1 (real matches / 6))"
      by simp
  qed
  have miss: "matches = 0 \<longrightarrow>
            dict_get (process_keyword ?terms ns combined_results) nid = dict_get combined_results nid"
    using keyword_scan_miss [of ?terms data nid c'] m pk c' by simp
  have six: "keyword_score_of 6 data = 1"
    by (simp add: keyword_score_of_def Let_def)
  have three: "requirement_type data \<noteq> Some ''mandatory'' \<longrightarrow> keyword_score_of 3 data = 1 / 2"
    by (simp add: keyword_score_of_def Let_def)
  from hit miss six three show ?thesis by blast
qed

theorem lexical_score_of_requirement_witness:
  "(\<exists>res. dict_get (process_keyword (search_terms_of mechanical_profile)
                      [(''c::req_0'', vibration_requirement)] []) ''c::req_0'' = Some res \<and>
          keyword_score res = 2 / 5) \<and>
   keyword_score_of 6 vibration_requirement = 1"
proof -
  have d: "distinct (map fst [(''c::req_0'', vibration_requirement)])" by simp
  have i: "(''c::req_0'', vibration_requirement) \<in> set [(''c::req_0'', vibration_requirement)]" by simp
  have t: "node_type vibration_requirement = Some Requirement"
    by (simp add: vibration_requirement_def)
  have rt: "requirement_type vibration_requirement = Some ''mandatory''"
    by (simp add: vibration_requirement_def)
  have c: "(2::nat) = card {t \<in> set (search_terms_of mechanical_profile).
                     sublist t (lower (default_str [] (node_text vibration_requirement)))}"
    using vibration_matches by (simp add: matches_card str_in_iff_sublist)
  from lexical_score_of_requirement [OF d i t c, of "[]"] rt show ?thesis
    by simp
qed

section \<open>Properties of the graph builder\<close>

subsection \<open>What every pass preserves\<close>

lemma counted_add_node_simps [simp]:
  "edges (graph (counted_add_node n a b)) = edges (graph b)"
  "processed_files (counted_add_node n a b) = processed_files b"
  by (auto simp: counted_add_node_def add_node_def split: option.splits)

lemma counted_add_edge_simps [simp]:
  "edges (graph (counted_add_edge u v ty m b)) =
     edges (graph b) @ [\<lparr>src = u, dst = v, key = new_edge_key (graph b) u v, edge_type = ty,
                          linking_method = m, confidence = 1\<rparr>]"
  "processed_files (counted_add_edge u v ty m b) = processed_files b"
  by (auto simp: counted_add_edge_def add_edge_def Let_def)

lemma create_requirements_inv:
  assumes N: "\<And>n a b. P b \<Longrightarrow> P (counted_add_node n a b)"
    and E: "\<And>u v ty m b. P b \<Longrightarrow>
              \<not> has_edge (graph b) u v \<or> ty = CONTAINS_REQUIREMENT \<or> ty = SIBLING_OF \<Longrightarrow>
              P (counted_add_edge u v ty m b)"
  shows "P b \<Longrightarrow> P (create_requirements chunk idx reqs b)"
  by (induction reqs arbitrary: idx b) (simp_all add: Let_def N E)

lemma create_document_nodes_inv:
  assumes N: "\<And>n a b. P b \<Longrightarrow> P (counted_add_node n a b)"
    and E: "\<And>u v ty m b. P b \<Longrightarrow>
              \<not> has_edge (graph b) u v \<or> ty = CONTAINS_REQUIREMENT \<or> ty = SIBLING_OF \<Longrightarrow>
              P (counted_add_edge u v ty m b)"
  shows "P b \<Longrightarrow> P (snd (create_document_nodes stds doc b))"
  unfolding create_document_nodes_def Let_def
  by (auto intro!: create_requirements_inv [of P, OF N E] N E split: if_splits)

lemma create_nodes_from_inv:
  assumes N: "\<And>n a b. P b \<Longrightarrow> P (counted_add_node n a b)"
    and E: "\<And>u v ty m b. P b \<Longrightarrow>
              \<not> has_edge (graph b) u v \<or> ty = CONTAINS_REQUIREMENT \<or> ty = SIBLING_OF \<Longrightarrow>
              P (counted_add_edge u v ty m b)"
  shows "P b \<Longrightarrow> P (create_nodes_from stds docs b)"
proof (induction docs arbitrary: stds b)
  case Nil
  then show ?case by simp
next
  case (Cons doc docs)
  show ?case
  proof (cases "doc_chunk_id doc = [] \<or> doc_document_id doc = []")
    case True
    with Cons show ?thesis by simp
  next
    case False
    obtain stds1 b1 where c: "create_document_nodes stds doc b = (stds1, b1)"
      by (cases "create_document_nodes stds doc b")
    from create_document_nodes_inv [of P, OF N E Cons.prems, of stds doc] c have "P b1" by simp
    with Cons.IH [of b1 stds1] False c show ?thesis by simp
  qed
qed


lemma link_siblings_inv:
  assumes E: "\<And>u v ty m b. P b \<Longrightarrow>
              \<not> has_edge (graph b) u v \<or> ty = CONTAINS_REQUIREMENT \<or> ty = SIBLING_OF \<Longrightarrow>
              P (counted_add_edge u v ty m b)"
  shows "P b \<Longrightarrow> P (link_siblings lookup node cid children b)"
  by (induction children arbitrary: b) (auto simp: E split: option.splits)

lemma structural_links_of_inv:
  assumes E: "\<And>u v ty m b. P b \<Longrightarrow>
              \<not> has_edge (graph b) u v \<or> ty = CONTAINS_REQUIREMENT \<or> ty = SIBLING_OF \<Longrightarrow>
              P (counted_add_edge u v ty m b)"
  shows "P b \<Longrightarrow> P (structural_links_of lookup nd b)"
  unfolding structural_links_of_def Let_def
  by (auto intro!: link_siblings_inv [of P, OF E] E split: option.splits)

lemma structural_loop_inv:
  assumes E: "\<And>u v ty m b. P b \<Longrightarrow>
              \<not> has_edge (graph b) u v \<or> ty = CONTAINS_REQUIREMENT \<or> ty = SIBLING_OF \<Longrightarrow>
              P (counted_add_edge u v ty m b)"
  shows "P b \<Longrightarrow> P (structural_loop lookup ns b)"
proof (induction ns arbitrary: b)
  case Nil
  then show ?case by simp
next
  case (Cons nd ns)
  from structural_links_of_inv [of P, OF E Cons.prems]
  have "P (structural_links_of lookup nd b)" .
  then show ?case using Cons.IH by simp
qed

lemma link_internal_refs_inv:
  assumes E: "\<And>u v ty m b. P b \<Longrightarrow>
              \<not> has_edge (graph b) u v \<or> ty = CONTAINS_REQUIREMENT \<or> ty = SIBLING_OF \<Longrightarrow>
              P (counted_add_edge u v ty m b)"
  shows "P b \<Longrightarrow> P (link_internal_refs lookup node refs b)"
  by (induction refs arbitrary: b) (auto simp: E split: option.splits)

lemma link_standard_refs_inv:
  assumes N: "\<And>n a b. P b \<Longrightarrow> P (counted_add_node n a b)"
    and E: "\<And>u v ty m b. P b \<Longrightarrow>
              \<not> has_edge (graph b) u v \<or> ty = CONTAINS_REQUIREMENT \<or> ty = SIBLING_OF \<Longrightarrow>
              P (counted_add_edge u v ty m b)"
  shows "P b \<Longrightarrow> P (link_standard_refs node stds b)"
  by (induction stds arbitrary: b) (auto simp: Let_def N E)

lemma reference_links_of_inv:
  assumes N: "\<And>n a b. P b \<Longrightarrow> P (counted_add_node n a b)"
    and E: "\<And>u v ty m b. P b \<Longrightarrow>
              \<not> has_edge (graph b) u v \<or> ty = CONTAINS_REQUIREMENT \<or> ty = SIBLING_OF \<Longrightarrow>
              P (counted_add_edge u v ty m b)"
  shows "P b \<Longrightarrow> P (reference_links_of lookup nd b)"
  unfolding reference_links_of_def Let_def
  by (auto intro!: link_standard_refs_inv [of P, OF N E] link_internal_refs_inv [of P, OF E])

lemma reference_loop_inv:
  assumes N: "\<And>n a b. P b \<Longrightarrow> P (counted_add_node n a b)"
    and E: "\<And>u v ty m b. P b \<Longrightarrow>
              \<not> has_edge (graph b) u v \<or> ty = CONTAINS_REQUIREMENT \<or> ty = SIBLING_OF \<Longrightarrow>
              P (counted_add_edge u v ty m b)"
  shows "P b \<Longrightarrow> P (reference_loop lookup ns b)"
proof (induction ns arbitrary: b)
  case Nil
  then show ?case by simp
next
  case (Cons nd ns)
  from reference_links_of_inv [of P, OF N E Cons.prems]
  have "P (reference_links_of lookup nd b)" .
  then show ?case using Cons.IH by simp
qed

lemma passes_inv:
  assumes N: "\<And>n a b. P b \<Longrightarrow> P (counted_add_node n a b)"
    and E: "\<And>u v ty m b. P b \<Longrightarrow>
              \<not> has_edge (graph b) u v \<or> ty = CONTAINS_REQUIREMENT \<or> ty = SIBLING_OF \<Longrightarrow>
              P (counted_add_edge u v ty m b)"
    and "P b"
  shows "P (create_nodes documents b)"
    and "P (create_structural_links b)"
    and "P (create_reference_links b)"
  unfolding create_nodes_def create_structural_links_def create_reference_links_def
  using create_nodes_from_inv [of P, OF N E assms(3)] structural_loop_inv [of P, OF E assms(3)]
        reference_loop_inv [of P, OF N E assms(3)]
  by blast+

lemma passes_processed_files [simp]:
  "processed_files (create_nodes documents b) = processed_files b"
  "processed_files (create_structural_links b) = processed_files b"
  "processed_files (create_reference_links b) = processed_files b"
proof -
  let ?P = "\<lambda>b'. processed_files b' = processed_files b"
  have N: "\<And>n a b'. ?P b' \<Longrightarrow> ?P (counted_add_node n a b')" by simp
  have E: "\<And>u v ty m b'. ?P b' \<Longrightarrow>
              \<not> has_edge (graph b') u v \<or> ty = CONTAINS_REQUIREMENT \<or> ty = SIBLING_OF \<Longrightarrow>
              ?P (counted_add_edge u v ty m b')" by simp
  show "processed_files (create_nodes documents b) = processed_files b"
    "processed_files (create_structural_links b) = processed_files b"
    "processed_files (create_reference_links b) = processed_files b"
    using passes_inv [of ?P, OF N E] by simp_all
qed

lemma load_documents_processed:
  "snd (load_documents files (docs, S)) = S \<union> {p. \<exists>d. (p, Some d) \<in> set files}"
proof (induction files arbitrary: docs S)
  case Nil
  then show ?case by simp
next
  case (Cons f files)
  obtain p c where f: "f = (p, c)" by (cases f)
  show ?case
    by (cases c) (auto simp: f Cons.IH)
qed

lemma build_new_files:
  assumes "build_from_directory (Some files) es er b = Inr (b', r)"
  shows "new_files_processed r = length (new_files_of files b)"
    and "processed_files b' = processed_files b \<union> {p. \<exists>d. (p, Some d) \<in> set (new_files_of files b)}"
proof -
  show "new_files_processed r = length (new_files_of files b)"
    using assms
    by (auto simp: build_from_directory_def Let_def split: if_splits prod.splits)
  show "processed_files b' = processed_files b \<union> {p. \<exists>d. (p, Some d) \<in> set (new_files_of files b)}"
  proof (cases "new_files_of files b = []")
    case True
    with assms show ?thesis
      by (auto simp: build_from_directory_def Let_def)
  next
    case False
    obtain docs S where l: "load_documents (new_files_of files b) ([], processed_files b) = (docs, S)"
      by (cases "load_documents (new_files_of files b) ([], processed_files b)")
    from load_documents_processed [of "new_files_of files b" "[]" "processed_files b"] l
    have S: "S = processed_files b \<union> {p. \<exists>d. (p, Some d) \<in> set (new_files_of files b)}"
      by simp
    from assms False l have "processed_files b' = S"
      by (auto simp: build_from_directory_def Let_def split: if_splits)
    with S show ?thesis by simp
  qed
qed



lemma build_total:
  "\<exists>b' r. build_from_directory (Some files) es er b = Inr (b', r)"
  by (auto simp: build_from_directory_def Let_def split: prod.splits)

lemma built_from_eq:
  "\<exists>r. build_from_directory (Some files) True True (new_builder None) = Inr (built_from files, r)"
  using build_total [of files True True "new_builder None"]
  by (auto simp: built_from_def)

lemma create_nodes_from_skip:
  "create_nodes_from stds documents b =
   create_nodes_from stds (filter (\<lambda>d. doc_chunk_id d \<noteq> [] \<and> doc_document_id d \<noteq> []) documents) b"
proof (induction documents arbitrary: stds b)
  case Nil
  then show ?case by simp
next
  case (Cons doc documents)
  then show ?case
    by (cases "create_document_nodes stds doc b") simp
qed

lemma in_mixed_directory:
  "(''bad.json'', None) \<in> set mixed_directory"
  "(''noid.json'', Some doc_without_ids) \<in> set mixed_directory"
  by (simp_all add: mixed_directory_def)

subsection \<open>Files processed by a build\<close>

text \<open>
  C10. A build reports as \<open>new_files_processed\<close> the number of listed files whose path was
  not yet in the processed set, whether they load or not. A file that fails to load does
  not enter the processed set; a file that loads does, with or without \<open>chunk_id\<close> and
  \<open>document_id\<close>; and node creation skips the documents that lack one of the two ids, as if
  they were not in the list.
\<close>

theorem new_files_processed_counts_attempts:
  assumes "build_from_directory (Some json_files) es er b = Inr (b', result)"
    and "distinct (map fst json_files)"
  shows "new_files_processed result = length (filter (\<lambda>f. fst f \<notin> processed_files b) json_files) \<and>
         (\<forall>p. (p, None) \<in> set json_files \<and> p \<notin> processed_files b \<longrightarrow> p \<notin> processed_files b') \<and>
         (\<forall>p d. (p, Some d) \<in> set json_files \<longrightarrow> p \<in> processed_files b') \<and>
         create_nodes documents b0 =
           create_nodes (filter (\<lambda>d. doc_chunk_id d \<noteq> [] \<and> doc_document_id d \<noteq> []) documents) b0"
proof -
  note bn = build_new_files [OF assms(1)]
  have count: "new_files_processed result = length (filter (\<lambda>f. fst f \<notin> processed_files b) json_files)"
    using bn(1) by (simp add: new_files_of_def)
  have failing: "\<forall>p. (p, None) \<in> set json_files \<and> p \<notin> processed_files b \<longrightarrow> p \<notin> processed_files b'"
  proof (intro allI impI notI)
    fix p
    assume a: "(p, None) \<in> set json_files \<and> p \<notin> processed_files b" and "p \<in> processed_files b'"
    with bn(2) obtain d where "(p, Some d) \<in> set json_files"
      by (auto simp: new_files_of_def)
    with a assms(2) show False
      by (auto dest: eq_key_imp_eq_value)
  qed
  have loading: "\<forall>p d. (p, Some d) \<in> set json_files \<longrightarrow> p \<in> processed_files b'"
    using bn(2) by (auto simp: new_files_of_def)
  have skip: "create_nodes documents b0 =
           create_nodes (filter (\<lambda>d. doc_chunk_id d \<noteq> [] \<and> doc_document_id d \<noteq> []) documents) b0"
    unfolding create_nodes_def by (rule create_nodes_from_skip)
  from count failing loading skip show ?thesis by blast
qed

theorem new_files_processed_counts_attempts_witness:
  "(\<exists>r. build_from_directory (Some mixed_directory) True True (new_builder None)
           = Inr (built_from mixed_directory, r) \<and> new_files_processed r = 3) \<and>
   ''bad.json'' \<notin> processed_files (built_from mixed_directory) \<and>
   ''noid.json'' \<in> processed_files (built_from mixed_directory) \<and>
   create_nodes [doc_without_ids] (new_builder None) = new_builder None"
proof -
  obtain r where b: "build_from_directory (Some mixed_directory) True True (new_builder None)
           = Inr (built_from mixed_directory, r)"
    using built_from_eq by blast
  have d: "distinct (map fst mixed_directory)"
    by (simp add: mixed_directory_def)
  have e: "processed_files (new_builder None) = {}"
    by (simp add: new_builder_def empty_graph_def Let_def)
  from new_files_processed_counts_attempts [OF b d, of "[doc_without_ids]" "new_builder None"]
       in_mixed_directory e
  have "new_files_processed r = 3"
    and "''bad.json'' \<notin> processed_files (built_from mixed_directory)"
    and "''noid.json'' \<in> processed_files (built_from mixed_directory)"
    and "create_nodes [doc_without_ids] (new_builder None) = new_builder None"
    by (auto simp: mixed_directory_def doc_without_ids_def create_nodes_def)
  with b show ?thesis by blast
qed


text \<open>
  C2, as stated, fails: after a build of a directory with one file that loads and one that
  does not parse, a second build of the same directory reports one new file.
\<close>

theorem rebuild_counts_unloadable_file:
  "(case build_from_directory (Some partly_unloadable_directory) True True (new_builder None) of
      Inl e \<Rightarrow> False
    | Inr (b1, r1) \<Rightarrow>
        (case build_from_directory (Some partly_unloadable_directory) True True b1 of
           Inl e \<Rightarrow> False
         | Inr (b2, r2) \<Rightarrow> new_files_processed r2 = 1))"
  by code_simp

subsection \<open>Parallel edges\<close>

text \<open>
  C5 does not hold of the code: the \<open>CONTAINS_REQUIREMENT\<close> edge is added without the
  \<open>has_edge\<close> test that guards every other edge, so a clause document that is present under
  two file names leaves two such edges, with keys 0 and 1, from the clause to its first
  requirement.
\<close>

theorem duplicate_requirement_edge:
  "map (\<lambda>e. (edge_type e, key e)) (edges_between (graph (built_from duplicated_directory)) ''z'' ''z::req_0'')
     = [(CONTAINS_REQUIREMENT, 0), (CONTAINS_REQUIREMENT, 1)]"
  by code_simp







subsection \<open>Reference pass\<close>

lemma has_edge_iff: "has_edge g u v \<longleftrightarrow> (\<exists>e \<in> set (edges g). src e = u \<and> dst e = v)"
  by (auto simp: has_edge_def edges_between_def filter_empty_conv)


lemma internal_ref_step_edges:
  "\<exists>ys. edges (graph (case lookup r of
                          None \<Rightarrow> b
                        | Some ref_node \<Rightarrow>
                            if \<not> has_edge (graph b) n ref_node
                            then counted_add_edge n ref_node REFERENCES reference b
                            else b)) = edges (graph b) @ ys \<and>
        (\<forall>e \<in> set ys. src e = n \<and> edge_type e = REFERENCES \<and> \<not> has_edge (graph b) n (dst e))"
proof (cases "lookup r")
  case None
  then show ?thesis by simp
next
  case (Some a)
  then show ?thesis by (cases "has_edge (graph b) n a") simp_all
qed


lemma link_internal_refs_edges:
  "\<exists>xs. edges (graph (link_internal_refs lookup n refs b)) = edges (graph b) @ xs \<and>
        (\<forall>e \<in> set xs. src e = n \<and> edge_type e = REFERENCES \<and> \<not> has_edge (graph b) n (dst e))"
proof (induction refs arbitrary: b)
  case Nil
  then show ?case by simp
next
  case (Cons r refs)
  let ?b1 = "case lookup r of
               None \<Rightarrow> b
             | Some ref_node \<Rightarrow>
                 if \<not> has_edge (graph b) n ref_node
                 then counted_add_edge n ref_node REFERENCES reference b
                 else b"
  from internal_ref_step_edges [where lookup = lookup and r = r and b = b and n = n]
  obtain ys where ys: "edges (graph ?b1) = edges (graph b) @ ys"
    "\<forall>e \<in> set ys. src e = n \<and> edge_type e = REFERENCES \<and> \<not> has_edge (graph b) n (dst e)"
    by blast
  from Cons.IH [of ?b1] obtain xs where xs:
    "edges (graph (link_internal_refs lookup n refs ?b1)) = edges (graph ?b1) @ xs"
    "\<forall>e \<in> set xs. src e = n \<and> edge_type e = REFERENCES \<and> \<not> has_edge (graph ?b1) n (dst e)"
    by blast
  from xs(2) ys(1) have "\<forall>e \<in> set xs. \<not> has_edge (graph b) n (dst e)"
    by (auto simp: has_edge_iff)
  with xs ys have
    "edges (graph (link_internal_refs lookup n (r # refs) b)) = edges (graph b) @ (ys @ xs) \<and>
     (\<forall>e \<in> set (ys @ xs). src e = n \<and> edge_type e = REFERENCES \<and> \<not> has_edge (graph b) n (dst e))"
    by auto
  then show ?case by blast
qed

lemma link_internal_refs_has_edge:
  assumes "r \<in> set refs" and "lookup r = Some m"
  shows "has_edge (graph (link_internal_refs lookup n refs b)) n m"
  using assms
proof (induction refs arbitrary: b)
  case Nil
  then show ?case by simp
next
  case (Cons r' refs)
  let ?b1 = "case lookup r' of
               None \<Rightarrow> b
             | Some ref_node \<Rightarrow>
                 if \<not> has_edge (graph b) n ref_node
                 then counted_add_edge n ref_node REFERENCES reference b
                 else b"
  show ?case
  proof (cases "r = r'")
    case True
    with Cons.prems have "has_edge (graph ?b1) n m"
      by (auto simp: has_edge_iff)
    moreover from link_internal_refs_edges [of lookup n refs ?b1] obtain xs where
      "edges (graph (link_internal_refs lookup n refs ?b1)) = edges (graph ?b1) @ xs"
      by blast
    ultimately have "has_edge (graph (link_internal_refs lookup n refs ?b1)) n m"
      by (auto simp: has_edge_iff)
    then show ?thesis by simp
  next
    case False
    with Cons.prems have "r \<in> set refs" by simp
    from Cons.IH [OF this Cons.prems(2), of ?b1] show ?thesis by simp
  qed
qed









subsection \<open>A second build of the same directory\<close>

lemma has_edge_key_iff:
  "has_edge_key g u v k \<longleftrightarrow> (\<exists>e \<in> set (edges g). src e = u \<and> dst e = v \<and> key e = k)"
  by (auto simp: has_edge_key_def edges_between_def)

lemma has_node_iff: "has_node g n \<longleftrightarrow> n \<in> fst ` set (nodes g)"
  by (simp add: has_node_def dict_has_def)

lemma new_edge_key_fresh: "\<not> has_edge g u v \<Longrightarrow> new_edge_key g u v = 0"
  by (simp add: has_edge_def new_edge_key_def free_key.simps)

lemma first_key_no_edge:
  "first_key_present g \<Longrightarrow> \<not> has_edge_key g u v 0 \<Longrightarrow> \<not> has_edge g u v"
  by (auto simp: first_key_present_def has_edge_iff)

lemma add_node_first_key:
  "first_key_present (graph b) \<Longrightarrow> first_key_present (graph (counted_add_node n a b))"
  by (simp add: first_key_present_def has_edge_key_iff)

lemma add_edge_first_key:
  assumes "first_key_present (graph b)"
  shows "first_key_present (graph (counted_add_edge u v ty m b))"
proof (cases "has_edge (graph b) u v")
  case True
  then obtain e where "e \<in> set (edges (graph b))" "src e = u" "dst e = v"
    by (auto simp: has_edge_iff)
  with assms have "has_edge_key (graph b) u v 0"
    by (auto simp: first_key_present_def)
  with assms show ?thesis
    by (auto simp: first_key_present_def has_edge_key_iff)
next
  case False
  with assms show ?thesis
    by (auto simp: first_key_present_def has_edge_key_iff new_edge_key_fresh)
qed

lemma passes_first_key:
  assumes "first_key_present (graph b)"
  shows "first_key_present (graph (create_nodes documents b))"
    and "first_key_present (graph (create_structural_links b))"
    and "first_key_present (graph (create_reference_links b))"
proof -
  let ?P = "\<lambda>b. first_key_present (graph b)"
  have N: "\<And>n a b. ?P b \<Longrightarrow> ?P (counted_add_node n a b)"
    by (rule add_node_first_key)
  have E: "\<And>u v ty m b. ?P b \<Longrightarrow>
              \<not> has_edge (graph b) u v \<or> ty = CONTAINS_REQUIREMENT \<or> ty = SIBLING_OF \<Longrightarrow>
              ?P (counted_add_edge u v ty m b)"
    by (rule add_edge_first_key)
  show "first_key_present (graph (create_nodes documents b))"
    "first_key_present (graph (create_structural_links b))"
    "first_key_present (graph (create_reference_links b))"
    using passes_inv [of ?P, OF N E] assms by simp_all
qed

lemma add_edge_nodes:
  "has_node (graph b) u \<Longrightarrow> has_node (graph b) v \<Longrightarrow>
   nodes (graph (counted_add_edge u v ty m b)) = nodes (graph b)"
  by (simp add: counted_add_edge_def add_edge_def Let_def)

lemma add_edge_other_fields [simp]:
  "node_count (counted_add_edge u v ty m b) = node_count b"
  "meta_processed_files (graph (counted_add_edge u v ty m b)) = meta_processed_files (graph b)"
  by (simp_all add: counted_add_edge_def add_edge_def Let_def)

lemma clause_lookup_from_range:
  "clause_lookup_from ns m c = Some n \<Longrightarrow> n \<in> fst ` set ns \<or> m c = Some n"
proof (induction ns arbitrary: m)
  case Nil
  then show ?case by simp
next
  case (Cons nd ns)
  obtain i d where nd: "nd = (i, d)" by (cases nd)
  from Cons.prems Cons.IH show ?case
    by (fastforce simp: nd split: if_splits option.splits)
qed

lemma clause_lookup_has_node: "clause_lookup g c = Some n \<Longrightarrow> has_node g n"
  using clause_lookup_from_range [of "nodes g" Map.empty c n]
  by (simp add: clause_lookup_def has_node_iff)


lemma has_edge_key_add_edge:
  "has_edge_key (graph (counted_add_edge u v ty m b)) x y k \<longleftrightarrow>
     has_edge_key (graph b) x y k \<or> (x = u \<and> y = v \<and> k = new_edge_key (graph b) u v)"
  by (auto simp: has_edge_key_iff)

lemma sibling_step:
  fixes s :: string and cid :: "string option"
  assumes K: "first_key_present (graph b)"
    and hn: "has_node (graph b) node"
    and ok: "\<forall>c n. lookup c = Some n \<longrightarrow> has_node (graph b) n"
  defines "b1 \<equiv> (if Some s \<noteq> cid
                   then (case lookup s of
                           None \<Rightarrow> b
                         | Some sibling_node \<Rightarrow>
                             if \<not> has_edge_key (graph b) node sibling_node 0
                             then counted_add_edge node sibling_node SIBLING_OF structural b
                             else b)
                   else b)"
  shows "nodes (graph b1) = nodes (graph b)"
    and "first_key_present (graph b1)"
    and "set (edges (graph b)) \<subseteq> set (edges (graph b1))"
    and "Some s \<noteq> cid \<Longrightarrow> lookup s = Some sn \<Longrightarrow> has_edge_key (graph b1) node sn 0"
proof -
  show "nodes (graph b1) = nodes (graph b)"
    using hn ok by (auto simp: b1_def add_edge_nodes split: option.splits)
  show "first_key_present (graph b1)"
    using K by (auto simp: b1_def add_edge_first_key split: option.splits)
  show "set (edges (graph b)) \<subseteq> set (edges (graph b1))"
    by (auto simp: b1_def split: option.splits)
  show "has_edge_key (graph b1) node sn 0" if "Some s \<noteq> cid" "lookup s = Some sn"
  proof (cases "has_edge_key (graph b) node sn 0")
    case True
    with that show ?thesis by (simp add: b1_def)
  next
    case False
    with K have "\<not> has_edge (graph b) node sn" by (rule first_key_no_edge)
    then have "new_edge_key (graph b) node sn = 0" by (rule new_edge_key_fresh)
    with that False show ?thesis by (simp add: b1_def has_edge_key_add_edge)
  qed
qed

lemma has_edge_key_mono:
  "set (edges g) \<subseteq> set (edges g') \<Longrightarrow> has_edge_key g u v k \<Longrightarrow> has_edge_key g' u v k"
  by (auto simp: has_edge_key_iff)

lemma has_edge_mono:
  "set (edges g) \<subseteq> set (edges g') \<Longrightarrow> has_edge g u v \<Longrightarrow> has_edge g' u v"
  by (auto simp: has_edge_iff)

lemma link_siblings_props:
  assumes "first_key_present (graph b)"
    and "has_node (graph b) node"
    and "\<forall>c n. lookup c = Some n \<longrightarrow> has_node (graph b) n"
  shows "nodes (graph (link_siblings lookup node cid children b)) = nodes (graph b) \<and>
         first_key_present (graph (link_siblings lookup node cid children b)) \<and>
         set (edges (graph b)) \<subseteq> set (edges (graph (link_siblings lookup node cid children b))) \<and>
         (\<forall>s \<in> set children. Some s \<noteq> cid \<longrightarrow>
            (\<forall>sn. lookup s = Some sn \<longrightarrow>
               has_edge_key (graph (link_siblings lookup node cid children b)) node sn 0))"
  using assms
proof (induction children arbitrary: b)
  case Nil
  then show ?case by simp
next
  case (Cons s children)
  let ?b1 = "(if Some s \<noteq> cid
                   then (case lookup s of
                           None \<Rightarrow> b
                         | Some sibling_node \<Rightarrow>
                             if \<not> has_edge_key (graph b) node sibling_node 0
                             then counted_add_edge node sibling_node SIBLING_OF structural b
                             else b)
                   else b)"
  note st = sibling_step [OF Cons.prems, of s cid]
  have hn1: "has_node (graph ?b1) node"
    using Cons.prems(2) st(1) by (simp add: has_node_iff)
  have ok1: "\<forall>c n. lookup c = Some n \<longrightarrow> has_node (graph ?b1) n"
    using Cons.prems(3) st(1) by (simp add: has_node_iff)
  note ih = Cons.IH [OF st(2) hn1 ok1]
  let ?bf = "link_siblings lookup node cid children ?b1"
  have fin: "link_siblings lookup node cid (s # children) b = ?bf" by simp
  have "nodes (graph ?bf) = nodes (graph b)" using ih st(1) by simp
  moreover have "first_key_present (graph ?bf)" using ih by simp
  moreover have sub: "set (edges (graph b)) \<subseteq> set (edges (graph ?bf))" using ih st(3) by blast
  moreover have "\<forall>s' \<in> set (s # children). Some s' \<noteq> cid \<longrightarrow>
            (\<forall>sn. lookup s' = Some sn \<longrightarrow> has_edge_key (graph ?bf) node sn 0)"
  proof (intro ballI impI allI)
    fix s' sn
    assume a: "s' \<in> set (s # children)" "Some s' \<noteq> cid" "lookup s' = Some sn"
    show "has_edge_key (graph ?bf) node sn 0"
    proof (cases "s' \<in> set children")
      case True
      with ih a show ?thesis by blast
    next
      case False
      with a have "s' = s" by simp
      with a st(4) have "has_edge_key (graph ?b1) node sn 0" by simp
      moreover from ih have "set (edges (graph ?b1)) \<subseteq> set (edges (graph ?bf))" by simp
      ultimately show ?thesis by (rule has_edge_key_mono [rotated])
    qed
  qed
  ultimately show ?case unfolding fin by blast
qed

lemma link_siblings_id:
  assumes "\<forall>s \<in> set children. Some s \<noteq> cid \<longrightarrow>
            (\<forall>sn. lookup s = Some sn \<longrightarrow> has_edge_key (graph b) node sn 0)"
  shows "link_siblings lookup node cid children b = b"
  using assms by (induction children) (auto split: option.splits)


lemma structural_links_of_props:
  assumes K: "first_key_present (graph b)"
    and hn: "has_node (graph b) (fst nd)"
    and ok: "\<forall>c n. lookup c = Some n \<longrightarrow> has_node (graph b) n"
  shows "nodes (graph (structural_links_of lookup nd b)) = nodes (graph b) \<and>
         first_key_present (graph (structural_links_of lookup nd b)) \<and>
         set (edges (graph b)) \<subseteq> set (edges (graph (structural_links_of lookup nd b))) \<and>
         structurally_linked lookup (graph (structural_links_of lookup nd b)) nd"
proof (cases "node_type (snd nd) = Some Clause \<and>
              (\<exists>p pn. parent_id (snd nd) = Some p \<and> p \<noteq> [] \<and> lookup p = Some pn)")
  case False
  then have "structural_links_of lookup nd b = b"
    by (auto simp: structural_links_of_def Let_def split: option.splits)
  moreover from False have "structurally_linked lookup (graph b) nd"
    by (auto simp: structurally_linked_def)
  ultimately show ?thesis using K by simp
next
  case True
  then obtain p pn where cl: "node_type (snd nd) = Some Clause"
    and p: "parent_id (snd nd) = Some p" "p \<noteq> []" "lookup p = Some pn"
    by blast
  let ?node = "fst nd"
  let ?cid = "clause_id (snd nd)"
  define b1 where "b1 = (if \<not> has_edge (graph b) pn ?node
                         then counted_add_edge pn ?node PARENT_OF structural b else b)"
  from ok p(3) have hp: "has_node (graph b) pn" by blast
  have n1: "nodes (graph b1) = nodes (graph b)"
    using hn hp by (simp add: b1_def add_edge_nodes)
  have k1: "first_key_present (graph b1)"
    using K by (simp add: b1_def add_edge_first_key)
  have e1: "set (edges (graph b)) \<subseteq> set (edges (graph b1))"
    by (auto simp: b1_def)
  have h1: "has_edge (graph b1) pn ?node"
    by (auto simp: b1_def has_edge_iff)
  have hn1: "has_node (graph b1) ?node" using hn n1 by (simp add: has_node_iff)
  have ok1: "\<forall>c n. lookup c = Some n \<longrightarrow> has_node (graph b1) n"
    using ok n1 by (simp add: has_node_iff)
  show ?thesis
  proof (cases "\<exists>pd. dict_get (nodes (graph b1)) pn = Some pd \<and>
                     (\<exists>c. ?cid = Some c \<and> c \<in> set (children_ids pd))")
    case False
    then have eq: "structural_links_of lookup nd b = b1"
      using cl p by (auto simp: structural_links_of_def Let_def b1_def split: option.splits)
    from False h1 p have "structurally_linked lookup (graph b1) nd"
      by (auto simp: structurally_linked_def)
    with eq n1 k1 e1 show ?thesis by simp
  next
    case True
    then obtain pd c where pd: "dict_get (nodes (graph b1)) pn = Some pd"
      and c: "?cid = Some c" "c \<in> set (children_ids pd)"
      by blast
    let ?bf = "link_siblings lookup ?node ?cid (children_ids pd) b1"
    have eq: "structural_links_of lookup nd b = ?bf"
      using cl p pd c by (simp add: structural_links_of_def Let_def b1_def)
    note ls = link_siblings_props [OF k1 hn1 ok1, of ?cid "children_ids pd"]
    from ls e1 have ef: "set (edges (graph b)) \<subseteq> set (edges (graph ?bf))" by blast
    from ls have nf: "nodes (graph ?bf) = nodes (graph b1)" by simp
    from ls h1 have hf: "has_edge (graph ?bf) pn ?node"
      by (blast intro: has_edge_mono)
    have "structurally_linked lookup (graph ?bf) nd"
      unfolding structurally_linked_def
      using p pd ls hf nf by auto
    with eq ls n1 ef show ?thesis by simp
  qed
qed

lemma structural_links_of_id:
  assumes "structurally_linked lookup (graph b) nd"
  shows "structural_links_of lookup nd b = b"
  using assms
  by (auto simp: structural_links_of_def structurally_linked_def Let_def link_siblings_id
           split: option.splits)


lemma grows_to_refl: "grows_to g g"
  by (simp add: grows_to_def)

lemma grows_to_trans: "grows_to g g' \<Longrightarrow> grows_to g' g'' \<Longrightarrow> grows_to g g''"
  by (fastforce simp: grows_to_def)

lemma grows_to_same_nodes:
  "nodes g' = nodes g \<Longrightarrow> set (edges g) \<subseteq> set (edges g') \<Longrightarrow> grows_to g g'"
  by (simp add: grows_to_def)

lemma grows_to_has_node: "grows_to g g' \<Longrightarrow> has_node g n \<Longrightarrow> has_node g' n"
  by (auto simp: grows_to_def has_node_iff)

lemma grows_to_has_edge: "grows_to g g' \<Longrightarrow> has_edge g u v \<Longrightarrow> has_edge g' u v"
  by (auto simp: grows_to_def has_edge_iff)

lemma grows_to_has_edge_key: "grows_to g g' \<Longrightarrow> has_edge_key g u v k \<Longrightarrow> has_edge_key g' u v k"
  by (auto simp: grows_to_def has_edge_key_iff)

lemma grows_to_dict_get:
  assumes "grows_to g g'" and "has_node g n"
  shows "dict_get (nodes g') n = dict_get (nodes g) n"
proof -
  from assms(1) obtain zs where zs: "nodes g' = nodes g @ zs"
    by (auto simp: grows_to_def)
  from assms(2) have "n \<in> fst ` set (nodes g)" by (simp add: has_node_iff)
  then obtain d where "map_of (nodes g) n = Some d"
    by (cases "map_of (nodes g) n") (auto simp: map_of_eq_None_iff)
  then show ?thesis
    by (simp add: zs dict_get_def map_add_def)
qed

lemma clause_lookup_from_append:
  "\<forall>z \<in> set zs. node_type (snd z) \<noteq> Some Clause \<Longrightarrow>
   clause_lookup_from (ns @ zs) m = clause_lookup_from ns m"
proof (induction ns arbitrary: m)
  case Nil
  then show ?case
  proof (induction zs arbitrary: m)
    case Nil
    then show ?case by simp
  next
    case (Cons z zs)
    obtain i d where z: "z = (i, d)" by (cases z)
    from Cons show ?case by (simp add: z)
  qed
next
  case (Cons nd ns)
  obtain i d where nd: "nd = (i, d)" by (cases nd)
  from Cons show ?case by (simp add: nd)
qed

lemma grows_to_clause_lookup: "grows_to g g' \<Longrightarrow> clause_lookup g' = clause_lookup g"
  by (auto simp: grows_to_def clause_lookup_def clause_lookup_from_append)

lemma structurally_linked_mono:
  assumes "structurally_linked lookup g nd"
    and "grows_to g g'"
    and "\<forall>c n. lookup c = Some n \<longrightarrow> has_node g n"
  shows "structurally_linked lookup g' nd"
  unfolding structurally_linked_def
proof (intro impI allI, elim conjE)
  fix p pn
  assume cl: "node_type (snd nd) = Some Clause"
    and p: "parent_id (snd nd) = Some p" "p \<noteq> []" "lookup p = Some pn"
  from assms(1) cl p have old:
    "has_edge g pn (fst nd)"
    "\<forall>pd. dict_get (nodes g) pn = Some pd \<and>
          (\<exists>c. clause_id (snd nd) = Some c \<and> c \<in> set (children_ids pd)) \<longrightarrow>
          (\<forall>s \<in> set (children_ids pd). Some s \<noteq> clause_id (snd nd) \<longrightarrow>
             (\<forall>sn. lookup s = Some sn \<longrightarrow> has_edge_key g (fst nd) sn 0))"
    by (auto simp: structurally_linked_def)
  from assms(3) p(3) have "has_node g pn" by blast
  with assms(2) have same: "dict_get (nodes g') pn = dict_get (nodes g) pn"
    by (rule grows_to_dict_get)
  show "has_edge g' pn (fst nd) \<and>
        (\<forall>pd. dict_get (nodes g') pn = Some pd \<and>
              (\<exists>c. clause_id (snd nd) = Some c \<and> c \<in> set (children_ids pd)) \<longrightarrow>
              (\<forall>s \<in> set (children_ids pd). Some s \<noteq> clause_id (snd nd) \<longrightarrow>
                 (\<forall>sn. lookup s = Some sn \<longrightarrow> has_edge_key g' (fst nd) sn 0)))"
    using old same grows_to_has_edge [OF assms(2)] grows_to_has_edge_key [OF assms(2)]
    by auto
qed

lemma structural_loop_props:
  assumes "first_key_present (graph b)"
    and "\<forall>nd \<in> set ns. has_node (graph b) (fst nd)"
    and "\<forall>c n. lookup c = Some n \<longrightarrow> has_node (graph b) n"
  shows "nodes (graph (structural_loop lookup ns b)) = nodes (graph b) \<and>
         first_key_present (graph (structural_loop lookup ns b)) \<and>
         set (edges (graph b)) \<subseteq> set (edges (graph (structural_loop lookup ns b))) \<and>
         (\<forall>nd \<in> set ns. structurally_linked lookup (graph (structural_loop lookup ns b)) nd)"
  using assms
proof (induction ns arbitrary: b)
  case Nil
  then show ?case by simp
next
  case (Cons nd ns)
  let ?b1 = "structural_links_of lookup nd b"
  let ?bf = "structural_loop lookup ns ?b1"
  from Cons.prems(2) have hn: "has_node (graph b) (fst nd)" by simp
  note st = structural_links_of_props [OF Cons.prems(1) hn Cons.prems(3)]
  from st have n1: "nodes (graph ?b1) = nodes (graph b)" by simp
  have hns: "\<forall>nd \<in> set ns. has_node (graph ?b1) (fst nd)"
    using Cons.prems(2) n1 by (simp add: has_node_iff)
  have ok1: "\<forall>c n. lookup c = Some n \<longrightarrow> has_node (graph ?b1) n"
    using Cons.prems(3) n1 by (simp add: has_node_iff)
  from st have k1: "first_key_present (graph ?b1)" by simp
  note ih = Cons.IH [OF k1 hns ok1]
  from ih n1 have nf: "nodes (graph ?bf) = nodes (graph b)" by simp
  from ih st have ef: "set (edges (graph b)) \<subseteq> set (edges (graph ?bf))" by blast
  from ih have g: "grows_to (graph ?b1) (graph ?bf)"
    by (simp add: grows_to_same_nodes)
  from st have "structurally_linked lookup (graph ?b1) nd" by simp
  from structurally_linked_mono [OF this g ok1]
  have "structurally_linked lookup (graph ?bf) nd" .
  with ih nf ef show ?case by simp
qed

lemma structural_loop_id:
  "\<forall>nd \<in> set ns. structurally_linked lookup (graph b) nd \<Longrightarrow> structural_loop lookup ns b = b"
  by (induction ns) (simp_all add: structural_links_of_id)

lemma nodes_have_node: "nd \<in> set (nodes g) \<Longrightarrow> has_node g (fst nd)"
  by (auto simp: has_node_iff)

lemma create_structural_links_props:
  assumes "first_key_present (graph b)"
  shows "nodes (graph (create_structural_links b)) = nodes (graph b)"
    and "first_key_present (graph (create_structural_links b))"
    and "set (edges (graph b)) \<subseteq> set (edges (graph (create_structural_links b)))"
    and "\<forall>nd \<in> set (nodes (graph (create_structural_links b))).
           structurally_linked (clause_lookup (graph (create_structural_links b)))
             (graph (create_structural_links b)) nd"
proof -
  have hns: "\<forall>nd \<in> set (nodes (graph b)). has_node (graph b) (fst nd)"
    by (simp add: nodes_have_node)
  have ok: "\<forall>c n. clause_lookup (graph b) c = Some n \<longrightarrow> has_node (graph b) n"
    by (simp add: clause_lookup_has_node)
  note sl = structural_loop_props [OF assms hns ok]
  from sl show n: "nodes (graph (create_structural_links b)) = nodes (graph b)"
    by (simp add: create_structural_links_def)
  from sl show "first_key_present (graph (create_structural_links b))"
    by (simp add: create_structural_links_def)
  from sl show "set (edges (graph b)) \<subseteq> set (edges (graph (create_structural_links b)))"
    by (simp add: create_structural_links_def)
  from n have "clause_lookup (graph (create_structural_links b)) = clause_lookup (graph b)"
    by (simp add: clause_lookup_def)
  with sl n show "\<forall>nd \<in> set (nodes (graph (create_structural_links b))).
           structurally_linked (clause_lookup (graph (create_structural_links b)))
             (graph (create_structural_links b)) nd"
    by (simp add: create_structural_links_def)
qed

lemma create_structural_links_id:
  "\<forall>nd \<in> set (nodes (graph b)). structurally_linked (clause_lookup (graph b)) (graph b) nd \<Longrightarrow>
   create_structural_links b = b"
  by (simp add: create_structural_links_def structural_loop_id)


lemma add_edge_grows:
  "has_node (graph b) u \<Longrightarrow> has_node (graph b) v \<Longrightarrow>
   grows_to (graph b) (graph (counted_add_edge u v ty m b))"
  by (rule grows_to_same_nodes) (auto simp: add_edge_nodes)

lemma link_internal_refs_props:
  assumes "has_node (graph b) node"
    and "\<forall>c n. lookup c = Some n \<longrightarrow> has_node (graph b) n"
  shows "nodes (graph (link_internal_refs lookup node refs b)) = nodes (graph b)"
  using assms
proof (induction refs arbitrary: b)
  case Nil
  then show ?case by simp
next
  case (Cons r refs)
  let ?b1 = "case lookup r of
               None \<Rightarrow> b
             | Some ref_node \<Rightarrow>
                 if \<not> has_edge (graph b) node ref_node
                 then counted_add_edge node ref_node REFERENCES reference b
                 else b"
  have n1: "nodes (graph ?b1) = nodes (graph b)"
    using Cons.prems by (auto simp: add_edge_nodes split: option.splits)
  then have "has_node (graph ?b1) node" "\<forall>c n. lookup c = Some n \<longrightarrow> has_node (graph ?b1) n"
    using Cons.prems by (simp_all add: has_node_iff)
  from Cons.IH [OF this] n1 show ?case by simp
qed

lemma link_internal_refs_grows:
  assumes "has_node (graph b) node"
    and "\<forall>c n. lookup c = Some n \<longrightarrow> has_node (graph b) n"
  shows "grows_to (graph b) (graph (link_internal_refs lookup node refs b))"
proof -
  from link_internal_refs_edges [of lookup node refs b]
  have "set (edges (graph b)) \<subseteq> set (edges (graph (link_internal_refs lookup node refs b)))"
    by auto
  with link_internal_refs_props [OF assms, of refs] show ?thesis
    by (simp add: grows_to_same_nodes)
qed

lemma add_external_node_grows:
  "\<not> has_node (graph b) n \<Longrightarrow>
   grows_to (graph b)
     (graph (counted_add_node n
               (\<lambda>d. d\<lparr>node_type := Some ExternalStandard, standard_name := Some s\<rparr>) b))"
  by (auto simp: grows_to_def counted_add_node_def add_node_def has_node_def dict_has_iff
           split: option.splits)

lemma dict_set_keys: "fst ` set (dict_set d k v) = insert k (fst ` set d)"
proof (induction d)
  case Nil
  then show ?case by simp
next
  case (Cons kv d)
  obtain k' v' where kv: "kv = (k', v')" by (cases kv)
  from Cons show ?case
    by (cases "k' = k") (simp_all add: kv insert_commute)
qed

lemma add_node_has_node: "has_node (graph (counted_add_node n a b)) n"
  by (simp add: counted_add_node_def add_node_def has_node_iff dict_set_keys
           split: option.splits)


lemma standard_step_props:
  fixes s :: string
  assumes hn: "has_node (graph b) node"
  defines "sn \<equiv> ''EXT::'' @ s"
  defines "b1 \<equiv> (if \<not> has_node (graph b) sn
                   then counted_add_node sn
                          (\<lambda>d. d\<lparr>node_type := Some ExternalStandard, standard_name := Some s\<rparr>) b
                   else b)"
  defines "b2 \<equiv> (if \<not> has_edge (graph b1) node sn
                   then counted_add_edge node sn CITES_STANDARD reference b1
                   else b1)"
  shows "grows_to (graph b) (graph b2)"
    and "has_node (graph b2) sn"
    and "has_edge (graph b2) node sn"
proof -
  have g1: "grows_to (graph b) (graph b1)"
    by (simp add: b1_def add_external_node_grows grows_to_refl)
  have s1: "has_node (graph b1) sn"
    by (simp add: b1_def add_node_has_node)
  have n1: "has_node (graph b1) node"
    using g1 hn by (rule grows_to_has_node)
  have g2: "grows_to (graph b1) (graph b2)"
    using n1 s1 by (simp add: b2_def add_edge_grows grows_to_refl)
  from g1 g2 show "grows_to (graph b) (graph b2)" by (rule grows_to_trans)
  from g2 s1 show "has_node (graph b2) sn" by (rule grows_to_has_node)
  show "has_edge (graph b2) node sn"
    by (auto simp: b2_def has_edge_iff)
qed

lemma link_standard_refs_props:
  assumes "has_node (graph b) node"
  shows "grows_to (graph b) (graph (link_standard_refs node stds b)) \<and>
         (\<forall>s \<in> set stds. has_node (graph (link_standard_refs node stds b)) (''EXT::'' @ s) \<and>
                          has_edge (graph (link_standard_refs node stds b)) node (''EXT::'' @ s))"
  using assms
proof (induction stds arbitrary: b)
  case Nil
  then show ?case by (simp add: grows_to_refl)
next
  case (Cons s stds)
  let ?sn = "''EXT::'' @ s"
  let ?b1 = "if \<not> has_node (graph b) ?sn
             then counted_add_node ?sn
                    (\<lambda>d. d\<lparr>node_type := Some ExternalStandard, standard_name := Some s\<rparr>) b
             else b"
  let ?b2 = "if \<not> has_edge (graph ?b1) node ?sn
             then counted_add_edge node ?sn CITES_STANDARD reference ?b1
             else ?b1"
  let ?bf = "link_standard_refs node stds ?b2"
  note st = standard_step_props [OF Cons.prems, of s]
  have fin: "link_standard_refs node (s # stds) b = ?bf" by (simp add: Let_def)
  from st(1) Cons.prems have "has_node (graph ?b2) node" by (rule grows_to_has_node)
  note ih = Cons.IH [OF this]
  from ih have gf: "grows_to (graph ?b2) (graph ?bf)" by simp
  with st(1) have "grows_to (graph b) (graph ?bf)" by (rule grows_to_trans)
  moreover from gf st(2) have "has_node (graph ?bf) ?sn" by (rule grows_to_has_node)
  moreover from gf st(3) have "has_edge (graph ?bf) node ?sn" by (rule grows_to_has_edge)
  ultimately show ?case unfolding fin using ih by simp
qed

lemma link_standard_refs_id:
  "\<forall>s \<in> set stds. has_node (graph b) (''EXT::'' @ s) \<and> has_edge (graph b) node (''EXT::'' @ s) \<Longrightarrow>
   link_standard_refs node stds b = b"
  by (induction stds) (simp_all add: Let_def)

lemma link_internal_refs_id:
  "\<forall>r \<in> set refs. \<forall>m. lookup r = Some m \<longrightarrow> has_edge (graph b) node m \<Longrightarrow>
   link_internal_refs lookup node refs b = b"
  by (induction refs) (auto split: option.splits)

lemma reference_links_of_props:
  assumes hn: "has_node (graph b) (fst nd)"
    and ok: "\<forall>c n. lookup c = Some n \<longrightarrow> has_node (graph b) n"
  shows "grows_to (graph b) (graph (reference_links_of lookup nd b)) \<and>
         reference_linked lookup (graph (reference_links_of lookup nd b)) nd"
proof (cases "node_type (snd nd) = Some Clause")
  case False
  then show ?thesis
    by (simp add: reference_links_of_def reference_linked_def Let_def grows_to_refl)
next
  case True
  let ?bi = "link_internal_refs lookup (fst nd) (internal_resolved (references (snd nd))) b"
  let ?bs = "link_standard_refs (fst nd) (standards (references (snd nd))) ?bi"
  have eq: "reference_links_of lookup nd b = ?bs"
    using True by (simp add: reference_links_of_def Let_def)
  have gi: "grows_to (graph b) (graph ?bi)"
    using hn ok by (rule link_internal_refs_grows)
  from gi hn have hi: "has_node (graph ?bi) (fst nd)" by (rule grows_to_has_node)
  note ls = link_standard_refs_props [OF hi, of "standards (references (snd nd))"]
  from ls have gs: "grows_to (graph ?bi) (graph ?bs)" by simp
  have refs: "\<forall>r \<in> set (internal_resolved (references (snd nd))).
                \<forall>m. lookup r = Some m \<longrightarrow> has_edge (graph ?bs) (fst nd) m"
    using link_internal_refs_has_edge [of _ "internal_resolved (references (snd nd))" lookup _ "fst nd" b]
          grows_to_has_edge [OF gs]
    by blast
  from refs ls have "reference_linked lookup (graph ?bs) nd"
    by (simp add: reference_linked_def)
  moreover from gi gs have "grows_to (graph b) (graph ?bs)" by (rule grows_to_trans)
  ultimately show ?thesis unfolding eq by simp
qed

lemma reference_links_of_id:
  "reference_linked lookup (graph b) nd \<Longrightarrow> reference_links_of lookup nd b = b"
  by (simp add: reference_links_of_def reference_linked_def Let_def
        link_internal_refs_id link_standard_refs_id)

lemma reference_linked_mono:
  "reference_linked lookup g nd \<Longrightarrow> grows_to g g' \<Longrightarrow> reference_linked lookup g' nd"
  unfolding reference_linked_def
  by (blast intro: grows_to_has_edge grows_to_has_node)

lemma reference_loop_props:
  assumes "\<forall>nd \<in> set ns. has_node (graph b) (fst nd)"
    and "\<forall>c n. lookup c = Some n \<longrightarrow> has_node (graph b) n"
  shows "grows_to (graph b) (graph (reference_loop lookup ns b)) \<and>
         (\<forall>nd \<in> set ns. reference_linked lookup (graph (reference_loop lookup ns b)) nd)"
  using assms
proof (induction ns arbitrary: b)
  case Nil
  then show ?case by (simp add: grows_to_refl)
next
  case (Cons nd ns)
  let ?b1 = "reference_links_of lookup nd b"
  let ?bf = "reference_loop lookup ns ?b1"
  from Cons.prems(1) have hn: "has_node (graph b) (fst nd)" by simp
  note st = reference_links_of_props [OF hn Cons.prems(2)]
  from st have g1: "grows_to (graph b) (graph ?b1)" by simp
  have hns: "\<forall>nd \<in> set ns. has_node (graph ?b1) (fst nd)"
    using Cons.prems(1) grows_to_has_node [OF g1] by simp
  have ok1: "\<forall>c n. lookup c = Some n \<longrightarrow> has_node (graph ?b1) n"
    using Cons.prems(2) grows_to_has_node [OF g1] by blast
  note ih = Cons.IH [OF hns ok1]
  from ih have gf: "grows_to (graph ?b1) (graph ?bf)" by simp
  from st have "reference_linked lookup (graph ?b1) nd" by simp
  from reference_linked_mono [OF this gf] have "reference_linked lookup (graph ?bf) nd" .
  moreover from g1 gf have "grows_to (graph b) (graph ?bf)" by (rule grows_to_trans)
  ultimately show ?case using ih by simp
qed

lemma reference_loop_id:
  "\<forall>nd \<in> set ns. reference_linked lookup (graph b) nd \<Longrightarrow> reference_loop lookup ns b = b"
  by (induction ns) (simp_all add: reference_links_of_id)

lemma create_reference_links_props:
  shows "grows_to (graph b) (graph (create_reference_links b))"
    and "\<forall>nd \<in> set (nodes (graph (create_reference_links b))).
           reference_linked (clause_lookup (graph (create_reference_links b)))
             (graph (create_reference_links b)) nd"
proof -
  have hns: "\<forall>nd \<in> set (nodes (graph b)). has_node (graph b) (fst nd)"
    by (simp add: nodes_have_node)
  have ok: "\<forall>c n. clause_lookup (graph b) c = Some n \<longrightarrow> has_node (graph b) n"
    by (simp add: clause_lookup_has_node)
  note rl = reference_loop_props [OF hns ok]
  from rl show g: "grows_to (graph b) (graph (create_reference_links b))"
    by (simp add: create_reference_links_def)
  from g have lk: "clause_lookup (graph (create_reference_links b)) = clause_lookup (graph b)"
    by (rule grows_to_clause_lookup)
  from g obtain zs where zs: "nodes (graph (create_reference_links b)) = nodes (graph b) @ zs"
    "\<forall>z \<in> set zs. node_type (snd z) \<noteq> Some Clause"
    by (auto simp: grows_to_def)
  show "\<forall>nd \<in> set (nodes (graph (create_reference_links b))).
           reference_linked (clause_lookup (graph (create_reference_links b)))
             (graph (create_reference_links b)) nd"
  proof
    fix nd
    assume "nd \<in> set (nodes (graph (create_reference_links b)))"
    with zs consider "nd \<in> set (nodes (graph b))" | "nd \<in> set zs" by auto
    then show "reference_linked (clause_lookup (graph (create_reference_links b)))
             (graph (create_reference_links b)) nd"
    proof cases
      case 1
      with rl show ?thesis unfolding lk by (simp add: create_reference_links_def)
    next
      case 2
      with zs(2) show ?thesis by (simp add: reference_linked_def)
    qed
  qed
qed

lemma create_reference_links_id:
  "\<forall>nd \<in> set (nodes (graph b)). reference_linked (clause_lookup (graph b)) (graph b) nd \<Longrightarrow>
   create_reference_links b = b"
  by (simp add: create_reference_links_def reference_loop_id)

lemma create_reference_links_keeps_structure:
  assumes "\<forall>nd \<in> set (nodes (graph b)). structurally_linked (clause_lookup (graph b)) (graph b) nd"
  shows "\<forall>nd \<in> set (nodes (graph (create_reference_links b))).
           structurally_linked (clause_lookup (graph (create_reference_links b)))
             (graph (create_reference_links b)) nd"
proof
  fix nd
  assume a: "nd \<in> set (nodes (graph (create_reference_links b)))"
  note g = create_reference_links_props(1) [of b]
  from g have lk: "clause_lookup (graph (create_reference_links b)) = clause_lookup (graph b)"
    by (rule grows_to_clause_lookup)
  from g obtain zs where zs: "nodes (graph (create_reference_links b)) = nodes (graph b) @ zs"
    "\<forall>z \<in> set zs. node_type (snd z) \<noteq> Some Clause"
    by (auto simp: grows_to_def)
  from a zs consider "nd \<in> set (nodes (graph b))" | "nd \<in> set zs" by auto
  then show "structurally_linked (clause_lookup (graph (create_reference_links b)))
             (graph (create_reference_links b)) nd"
  proof cases
    case 1
    with assms have "structurally_linked (clause_lookup (graph b)) (graph b) nd" by simp
    from structurally_linked_mono [OF this g] show ?thesis
      unfolding lk by (simp add: clause_lookup_has_node)
  next
    case 2
    with zs(2) show ?thesis by (simp add: structurally_linked_def)
  qed
qed


lemma load_documents_none:
  "\<forall>f \<in> set fs. snd f = None \<Longrightarrow> load_documents fs acc = acc"
proof (induction fs arbitrary: acc)
  case Nil
  then show ?case by simp
next
  case (Cons f fs)
  obtain p c where f: "f = (p, c)" by (cases f)
  obtain docs S where acc: "acc = (docs, S)" by (cases acc)
  from Cons show ?case by (simp add: f acc)
qed

lemma build_full:
  fixes es er :: bool
  assumes "new_files_of json_files b \<noteq> []"
    and "load_documents (new_files_of json_files b) ([], processed_files b) = (docs, S)"
  defines "c \<equiv> create_nodes docs (b\<lparr>processed_files := S\<rparr>)"
  defines "b2 \<equiv> (if es then create_structural_links c else c)"
  defines "b3 \<equiv> (if er then create_reference_links b2 else b2)"
  shows "\<exists>r. build_from_directory (Some json_files) es er b =
               Inr (b3\<lparr>graph := (graph b3)\<lparr>meta_processed_files := processed_files b3\<rparr>\<rparr>, r) \<and>
             new_files_processed r = length (new_files_of json_files b)"
  using assms(1,2)
  by (simp add: build_from_directory_def Let_def c_def b2_def b3_def)

lemma meta_update_same [simp]:
  "has_edge (g\<lparr>meta_processed_files := M\<rparr>) = has_edge g"
  "has_edge_key (g\<lparr>meta_processed_files := M\<rparr>) = has_edge_key g"
  "has_node (g\<lparr>meta_processed_files := M\<rparr>) = has_node g"
  "clause_lookup (g\<lparr>meta_processed_files := M\<rparr>) = clause_lookup g"
  by (auto simp: fun_eq_iff has_edge_def has_edge_key_def edges_between_def has_node_def
        clause_lookup_def)

lemma meta_update_linked [simp]:
  "structurally_linked lookup (g\<lparr>meta_processed_files := M\<rparr>) nd = structurally_linked lookup g nd"
  "reference_linked lookup (g\<lparr>meta_processed_files := M\<rparr>) nd = reference_linked lookup g nd"
  by (simp_all add: structurally_linked_def reference_linked_def)

lemma remaining_files:
  assumes "distinct (map fst json_files)"
    and "build_from_directory (Some json_files) es er b = Inr (b1, r1)"
  shows "new_files_of json_files b1 =
           filter (\<lambda>f. snd f = None \<and> fst f \<notin> processed_files b) json_files"
  unfolding new_files_of_def
proof (rule filter_cong [OF refl])
  fix f
  assume f: "f \<in> set json_files"
  obtain p c where pc: "f = (p, c)" by (cases f)
  note pf = build_new_files(2) [OF assms(2)]
  show "(fst f \<notin> processed_files b1) = (snd f = None \<and> fst f \<notin> processed_files b)"
  proof (cases c)
    case None
    have "\<not> (\<exists>d. (p, Some d) \<in> set json_files)"
    proof
      assume "\<exists>d. (p, Some d) \<in> set json_files"
      then obtain d where "(p, Some d) \<in> set json_files" by blast
      with f pc None assms(1) show False
        by (auto dest: eq_key_imp_eq_value)
    qed
    with pf pc None show ?thesis
      by (auto simp: new_files_of_def)
  next
    case (Some d)
    with pf pc f show ?thesis
      by (auto simp: new_files_of_def)
  qed
qed

text \<open>
  C2, amended. Let a graph be given in which every linked pair of nodes has its edge of
  key 0, as every graph has that this builder made. After a build of a directory, a second
  build of the same directory with the same passes enabled reports as new exactly the
  listed files that did not load in the first build, none when every file loads, and
  leaves the graph as the first build left it: the checksum, the nodes and the edges are
  the same.
\<close>

theorem rebuild_adds_nothing:
  assumes K: "first_key_present (graph b)"
    and D: "distinct (map fst json_files)"
    and B: "build_from_directory (Some json_files) es er b = Inr (b1, r1)"
  shows "\<exists>b2 r2. build_from_directory (Some json_files) es er b1 = Inr (b2, r2) \<and>
           new_files_processed r2 =
             length (filter (\<lambda>f. snd f = None \<and> fst f \<notin> processed_files b) json_files) \<and>
           compute_checksum b2 = compute_checksum b1 \<and>
           nodes (graph b2) = nodes (graph b1) \<and> edges (graph b2) = edges (graph b1)"
proof (cases "new_files_of json_files b1 = []")
  case True
  then have "\<exists>r2. build_from_directory (Some json_files) es er b1 = Inr (b1, r2) \<and>
               new_files_processed r2 = 0"
    by (simp add: build_from_directory_def Let_def)
  with True remaining_files [OF D B] show ?thesis by auto
next
  case False
  note rem = remaining_files [OF D B]
  have none: "\<forall>f \<in> set (new_files_of json_files b1). snd f = None"
    unfolding rem by simp
  have first: "new_files_of json_files b \<noteq> []"
  proof
    assume "new_files_of json_files b = []"
    then have "filter (\<lambda>f. snd f = None \<and> fst f \<notin> processed_files b) json_files = []"
      by (auto simp: new_files_of_def filter_empty_conv)
    with rem False show False by simp
  qed
  obtain docs S where l: "load_documents (new_files_of json_files b) ([], processed_files b) = (docs, S)"
    by (cases "load_documents (new_files_of json_files b) ([], processed_files b)")
  let ?c = "create_nodes docs (b\<lparr>processed_files := S\<rparr>)"
  let ?b2 = "if es then create_structural_links ?c else ?c"
  let ?b3 = "if er then create_reference_links ?b2 else ?b2"
  from build_full [OF first l, of es er] B
  have b1: "b1 = ?b3\<lparr>graph := (graph ?b3)\<lparr>meta_processed_files := processed_files ?b3\<rparr>\<rparr>"
    by auto
  have kc: "first_key_present (graph ?c)"
    using K by (intro passes_first_key(1)) simp
  have sat_s: "es \<longrightarrow> (\<forall>nd \<in> set (nodes (graph ?b3)).
                 structurally_linked (clause_lookup (graph ?b3)) (graph ?b3) nd)"
    using create_structural_links_props(4) [OF kc]
          create_reference_links_keeps_structure [of "create_structural_links ?c"]
    by simp
  have sat_r: "er \<longrightarrow> (\<forall>nd \<in> set (nodes (graph ?b3)).
                 reference_linked (clause_lookup (graph ?b3)) (graph ?b3) nd)"
    using create_reference_links_props(2) [of ?b2] by simp
  have s1: "es \<longrightarrow> create_structural_links b1 = b1"
    using sat_s by (auto simp: b1 intro!: create_structural_links_id)
  have r1: "er \<longrightarrow> create_reference_links b1 = b1"
    using sat_r by (auto simp: b1 intro!: create_reference_links_id)
  have l2: "load_documents (new_files_of json_files b1) ([], processed_files b1) = ([], processed_files b1)"
    using none by (rule load_documents_none)
  have m: "meta_processed_files (graph b1) = processed_files b1"
    by (simp add: b1)
  let ?c' = "create_nodes [] (b1\<lparr>processed_files := processed_files b1\<rparr>)"
  have c': "?c' = b1" by (simp add: create_nodes_def)
  have b2': "(if es then create_structural_links ?c' else ?c') = b1"
    using s1 c' by simp
  have b3': "(if er then create_reference_links (if es then create_structural_links ?c' else ?c')
              else (if es then create_structural_links ?c' else ?c')) = b1"
    using r1 b2' by simp
  from build_full [OF False l2, of es er] obtain r2 where
    r2: "build_from_directory (Some json_files) es er b1 =
           Inr (b1\<lparr>graph := (graph b1)\<lparr>meta_processed_files := processed_files b1\<rparr>\<rparr>, r2)"
        "new_files_processed r2 = length (new_files_of json_files b1)"
    unfolding b3' by blast
  have "b1\<lparr>graph := (graph b1)\<lparr>meta_processed_files := processed_files b1\<rparr>\<rparr> = b1"
    using m by simp
  with r2 rem show ?thesis by simp
qed


theorem rebuild_adds_nothing_witness:
  "\<exists>b2 r2. build_from_directory (Some partly_unloadable_directory) True True
              (built_from partly_unloadable_directory) = Inr (b2, r2) \<and>
           new_files_processed r2 = 1 \<and>
           compute_checksum b2 = compute_checksum (built_from partly_unloadable_directory) \<and>
           nodes (graph b2) = nodes (graph (built_from partly_unloadable_directory)) \<and>
           edges (graph b2) = edges (graph (built_from partly_unloadable_directory))"
proof -
  have k: "first_key_present (graph (new_builder None))"
    by (simp add: first_key_present_def new_builder_def empty_graph_def Let_def)
  have d: "distinct (map fst partly_unloadable_directory)"
    by (simp add: partly_unloadable_directory_def)
  obtain r where b: "build_from_directory (Some partly_unloadable_directory) True True (new_builder None)
           = Inr (built_from partly_unloadable_directory, r)"
    using built_from_eq by blast
  have n: "length (filter (\<lambda>f. snd f = None \<and> fst f \<notin> processed_files (new_builder None))
             partly_unloadable_directory) = 1"
    by (simp add: partly_unloadable_directory_def new_builder_def empty_graph_def Let_def)
  from rebuild_adds_nothing [OF k d b] n show ?thesis by simp
qed

end
